theory Spec2Isabelle
  imports Main "HOL-Library.Char_ord" "HOL-Library.List_Lexorder"
begin

section \<open>The data of the pull command\<close>

text \<open>
  The command \<^verbatim>\<open>aptly snapshot pull\<close> lives in \<^verbatim>\<open>cmd/snapshot_pull.go\<close>
  (function \<^verbatim>\<open>aptlySnapshotPull\<close>). It works on values of the package \<^verbatim>\<open>deb\<close>,
  whose code is not part of the sources at hand; the types and operations of \<^verbatim>\<open>deb\<close>
  used by the command are modelled from the specification (sections 3, 4.1, 4.2, 4.3 and 6)
  and marked as such.
\<close>

text \<open>Modelled from the spec: the relational operators of a version constraint (4.1),
  \<^verbatim>\<open><<\<close>, \<^verbatim>\<open><=\<close>, \<^verbatim>\<open>=\<close>, \<^verbatim>\<open>>=\<close>, \<^verbatim>\<open>>>\<close>.\<close>

datatype relop = VersionLess | VersionLessOrEqual | VersionEqual
  | VersionGreaterOrEqual | VersionGreater

text \<open>Modelled from the spec: \<^verbatim>\<open>deb.Dependency\<close>, the Dependency Expression of section 3.
  The command reads and writes the fields \<^verbatim>\<open>Pkg\<close> and \<^verbatim>\<open>Architecture\<close>; the optional
  version constraint is the third field. Go's \<^verbatim>\<open>==\<close> on the struct is structural
  equality, here equality of records.\<close>

record Dependency =
  Pkg :: string
  Architecture :: string
  Constraint :: "(relop \<times> string) option"

text \<open>Modelled from the spec: the relational metadata of a package (section 3), a bag of
  declared relations; an entry is a dependency expression (architecture unbound) or is
  malformed.\<close>

datatype relation = Requires Dependency | Malformed string

text \<open>Modelled from the spec: \<^verbatim>\<open>deb.Package\<close> (section 3). The command reads
  \<^verbatim>\<open>pkg.Name\<close> and \<^verbatim>\<open>pkg.Architecture\<close>. A package reference is modelled by the
  package value it refers to.\<close>

record package =
  pkg_Name :: string
  pkg_Version :: string
  pkg_Architecture :: string
  pkg_Requires :: "relation list"

text \<open>The errors of the command. The first group are the errors of the collaborators
  (section 7 of the spec); the second group are the errors built by the command itself
  with \<^verbatim>\<open>fmt.Errorf\<close>, each wrapping the error of a collaborator.\<close>

datatype error =
    NotFound string
  | LoadFailed string
  | MalformedDependency string
  | InvalidRelation "package list"
  | DuplicateName string
  | ErrCommandError
  | UnableToPull error
  | UnableToLoadPackages error
  | NoArchitectures
  | UnableToParseArgument error
  | UnableToCreateSnapshot error

text \<open>Modelled from the spec: \<^verbatim>\<open>deb.Snapshot\<close> (section 3), without its timestamp.
  Parents are recorded by name, which is globally unique.\<close>

record Snapshot =
  Name :: string
  RefList :: "package list"
  SourceSnapshots :: "string list"
  Description :: string

text \<open>What the command writes to \<^verbatim>\<open>context.Progress()\<close> and \<^verbatim>\<open>cmd.Usage()\<close>, one
  constructor for each call site (the source line is given with each).\<close>

datatype event =
    Usage                                 \<comment> \<open>line 16\<close>
  | PullBanner Snapshot Snapshot string   \<comment> \<open>line 46\<close>
  | LoadingPackages nat                   \<comment> \<open>line 50\<close>
  | BuildingIndexes                       \<comment> \<open>line 61\<close>
  | CantBeSatisfied Dependency Snapshot   \<comment> \<open>line 104\<close>
  | Removed package                       \<comment> \<open>line 114\<close>
  | Added package                         \<comment> \<open>line 124\<close>
  | VerifyError package error             \<comment> \<open>line 139\<close>
  | NotCreatingSnapshot                   \<comment> \<open>line 161\<close>
  | SnapshotCreated string                \<comment> \<open>line 172\<close>

text \<open>The global \<^verbatim>\<open>context\<close> of the command: the four flags, the configured
  architectures, the snapshot collection and the progress output, which the command
  changes, and the collaborators whose code and exact behaviour are outside the sources:
  loading a snapshot, resolving a reference list into packages, parsing a dependency and
  comparing two Debian versions. The latter four are parameters of the model: every
  theorem below holds for all of them.\<close>

record "context" =
  flag_dry_run :: bool
  flag_no_deps :: bool
  flag_no_remove :: bool
  flag_all_matches :: bool
  ArchitecturesList :: "string list"
  SnapshotCollection :: "Snapshot list"
  Progress :: "event list"
  LoadComplete :: "Snapshot \<Rightarrow> error option"
  NewPackageListFromRefList :: "package list \<Rightarrow> error + package list"
  ParseDependency :: "string \<Rightarrow> error + Dependency"
  CompareVersions :: "string \<Rightarrow> string \<Rightarrow> int"

section \<open>The package set and the dependency verifier\<close>

text \<open>Modelled from the spec: whether a version satisfies an optional constraint (4.1),
  under the version comparison \<open>cmp\<close> (negative, zero, positive).\<close>

definition satisfies :: "(string \<Rightarrow> string \<Rightarrow> int) \<Rightarrow> string \<Rightarrow> (relop \<times> string) option \<Rightarrow> bool" where
  "satisfies cmp v c =
     (case c of
        None \<Rightarrow> True
      | Some (VersionLess, w) \<Rightarrow> cmp v w < 0
      | Some (VersionLessOrEqual, w) \<Rightarrow> cmp v w \<le> 0
      | Some (VersionEqual, w) \<Rightarrow> cmp v w = 0
      | Some (VersionGreaterOrEqual, w) \<Rightarrow> 0 \<le> cmp v w
      | Some (VersionGreater, w) \<Rightarrow> 0 < cmp v w)"

text \<open>Modelled from the spec: the matching of a package against an expression (4.1): the
  name matches exactly, the version satisfies the constraint, the architecture matches
  exactly or the expression's architecture is the wildcard.\<close>

definition MatchesDependency :: "(string \<Rightarrow> string \<Rightarrow> int) \<Rightarrow> package \<Rightarrow> Dependency \<Rightarrow> bool" where
  "MatchesDependency cmp p d \<longleftrightarrow>
     pkg_Name p = Pkg d \<and> satisfies cmp (pkg_Version p) (Constraint d) \<and>
     (pkg_Architecture p = Architecture d \<or> Architecture d = ''any'')"

text \<open>Modelled from the spec: the highest-version element of a non-empty list of matches
  (4.2); among equal versions the earliest in the set's order wins.\<close>

fun highest :: "(string \<Rightarrow> string \<Rightarrow> int) \<Rightarrow> package \<Rightarrow> package list \<Rightarrow> package" where
  "highest cmp best [] = best"
| "highest cmp best (p # ps) =
     highest cmp (if 0 < cmp (pkg_Version p) (pkg_Version best) then p else best) ps"

text \<open>Modelled from the spec: \<^verbatim>\<open>PackageList.Search\<close> (4.2). A package set is the list
  of its members; its index is derived from the membership and the spec demands that no
  search sees a stale index, so \<^verbatim>\<open>PrepareIndex\<close> changes nothing the model holds. The
  result is every member matching the expression whose architecture is exactly the
  expression's; without \<open>allMatches\<close> only the highest version. The empty list is Go's
  \<^verbatim>\<open>nil\<close>.\<close>

definition Search :: "(string \<Rightarrow> string \<Rightarrow> int) \<Rightarrow> package list \<Rightarrow> Dependency \<Rightarrow> bool \<Rightarrow> package list" where
  "Search cmp l d allMatches =
     (let ms = filter (\<lambda>p. MatchesDependency cmp p d \<and> pkg_Architecture p = Architecture d) l
      in if allMatches then ms
         else (case ms of [] \<Rightarrow> [] | m # rest \<Rightarrow> [highest cmp m rest]))"

text \<open>Modelled from the spec: \<^verbatim>\<open>PackageList.Add\<close> (4.2), idempotent for a member.\<close>

definition Add :: "package list \<Rightarrow> package \<Rightarrow> package list" where
  "Add l p = (if p \<in> set l then l else l @ [p])"

text \<open>Modelled from the spec: \<^verbatim>\<open>PackageList.Remove\<close> (4.2), a no-op for a package that
  is absent.\<close>

definition Remove :: "package list \<Rightarrow> package \<Rightarrow> package list" where
  "Remove l p = removeAll p l"

text \<open>Modelled from the spec: \<^verbatim>\<open>PackageList.Architectures\<close> (4.2), the distinct
  architectures present, without the source pseudo-architecture unless requested.\<close>

definition Architectures :: "package list \<Rightarrow> bool \<Rightarrow> string list" where
  "Architectures l includeSource =
     remdups (map pkg_Architecture
       (filter (\<lambda>p. includeSource \<or> pkg_Architecture p \<noteq> ''source'') l))"

text \<open>Modelled from the spec: malformed relational metadata of a package (4.3, failure
  mode): some entry of its declared relations is malformed.\<close>

definition is_malformed :: "package \<Rightarrow> bool" where
  "is_malformed p = list_ex (\<lambda>r. case r of Malformed _ \<Rightarrow> True | Requires _ \<Rightarrow> False) (pkg_Requires p)"

text \<open>Modelled from the spec: the expansion of the declared requires of a package into
  dependency expressions scoped to the given architectures (4.3).\<close>

definition expand :: "string list \<Rightarrow> package \<Rightarrow> Dependency list" where
  "expand archs p =
     concat (map (\<lambda>r. case r of
                        Requires d \<Rightarrow> map (\<lambda>a. d\<lparr>Architecture := a\<rparr>) archs
                      | Malformed _ \<Rightarrow> [])
                 (pkg_Requires p))"

text \<open>Modelled from the spec: \<^verbatim>\<open>PackageList.VerifyDependencies\<close> (4.3): the expressions of
  the candidates that a search of the context set (highest match only) does not satisfy,
  without duplicates, and \<open>InvalidRelation\<close> for the candidates with malformed metadata,
  which contribute no expression, the remainder still being processed. The two components
  are Go's two results. The verifier of the specification takes no options and no
  progress, the first and last argument of the call at line 137.\<close>

definition VerifyDependencies ::
  "(string \<Rightarrow> string \<Rightarrow> int) \<Rightarrow> package list \<Rightarrow> string list \<Rightarrow> package list
     \<Rightarrow> Dependency list \<times> error option" where
  "VerifyDependencies cmp candidate archs sources =
     (let bad = filter is_malformed candidate;
          good = filter (\<lambda>p. \<not> is_malformed p) candidate;
          missing = remdups (filter (\<lambda>d. Search cmp sources d False = [])
                               (concat (map (expand archs) good)))
      in (missing, if bad = [] then None else Some (InvalidRelation bad)))"

text \<open>Modelled from the spec: \<^verbatim>\<open>SnapshotCollection.ByName\<close>, the lookup by name of the
  snapshot registry (section 6).\<close>

definition ByName :: "Snapshot list \<Rightarrow> string \<Rightarrow> error + Snapshot" where
  "ByName coll n =
     (case find (\<lambda>s. Name s = n) coll of None \<Rightarrow> Inl (NotFound n) | Some s \<Rightarrow> Inr s)"

text \<open>Modelled from the spec: \<^verbatim>\<open>SnapshotCollection.Add\<close>, the insertion into the snapshot
  registry (sections 4.5 and 6), which fails on a name that is taken.\<close>

definition CollectionAdd :: "Snapshot list \<Rightarrow> Snapshot \<Rightarrow> error + Snapshot list" where
  "CollectionAdd coll s =
     (if list_ex (\<lambda>t. Name t = Name s) coll then Inl (DuplicateName (Name s))
      else Inr (coll @ [s]))"

text \<open>Modelled from the spec: \<^verbatim>\<open>deb.NewSnapshotFromPackageList\<close>, the assembler of 4.5:
  the new snapshot holds the packages of the set and records its parents in the order
  given.\<close>

definition NewSnapshotFromPackageList ::
  "string \<Rightarrow> Snapshot list \<Rightarrow> package list \<Rightarrow> string \<Rightarrow> Snapshot" where
  "NewSnapshotFromPackageList n parents l descr =
     \<lparr>Name = n, RefList = l, SourceSnapshots = map Name parents, Description = descr\<rparr>"

section \<open>The closure of the pull command\<close>

text \<open>The variables of \<^verbatim>\<open>aptlySnapshotPull\<close> that its loops read and write: the two
  package lists (lines 51 and 56), the work list \<^verbatim>\<open>dependencies\<close> (line 91), the shared
  variable \<^verbatim>\<open>err\<close> (line 14) and the progress output.\<close>

record pull_state =
  packageList :: "package list"
  sourcePackageList :: "package list"
  dependencies :: "Dependency list"
  err :: "error option"
  progress :: "event list"

text \<open>Lines 112 to 115: every package of a search result is removed from the destination
  and reported.\<close>

definition remove_found :: "package list \<Rightarrow> pull_state \<Rightarrow> pull_state" where
  "remove_found pS st =
     fold (\<lambda>p s. s\<lparr>packageList := Remove (packageList s) p,
                    progress := progress s @ [Removed p]\<rparr>) pS st"

lemma highest_mem: "highest cmp b ps \<in> set (b # ps)"
  by (induction ps arbitrary: b) auto

lemma Search_subset: "set (Search cmp l d am) \<subseteq> set l"
proof (cases am)
  case True
  then show ?thesis by (auto simp: Search_def)
next
  case False
  show ?thesis
  proof (cases "filter (\<lambda>p. MatchesDependency cmp p d \<and> pkg_Architecture p = Architecture d) l")
    case Nil
    with False show ?thesis by (simp add: Search_def)
  next
    case (Cons m rest)
    have "highest cmp m rest \<in> set (m # rest)" by (rule highest_mem)
    also have "set (m # rest) \<subseteq> set l" unfolding Cons [symmetric] by auto
    finally show ?thesis using False Cons by (simp add: Search_def)
  qed
qed

lemma packageList_remove_found:
  "packageList (remove_found pS st) = fold (\<lambda>p l. Remove l p) pS (packageList st)"
  unfolding remove_found_def by (induction pS arbitrary: st) auto

lemma length_fold_Remove: "length (fold (\<lambda>p l. Remove l p) pS l) \<le> length l"
proof (induction pS arbitrary: l)
  case Nil
  show ?case by simp
next
  case (Cons p pS)
  have "length (fold (\<lambda>p l. Remove l p) pS (Remove l p)) \<le> length (Remove l p)"
    by (rule Cons.IH)
  also have "\<dots> \<le> length l" by (simp add: Remove_def)
  finally show ?case by simp
qed

lemma remove_found_shrinks:
  assumes "pS \<noteq> []" and "set pS \<subseteq> set (packageList st)"
  shows "length (packageList (remove_found pS st)) < length (packageList st)"
proof -
  obtain p ps where pS: "pS = p # ps" using assms(1) by (cases pS) auto
  with assms(2) have "p \<in> set (packageList st)" by simp
  then have "length (Remove (packageList st) p) < length (packageList st)"
    unfolding Remove_def by (simp add: length_removeAll_less)
  moreover have "length (fold (\<lambda>p l. Remove l p) ps (Remove (packageList st) p))
      \<le> length (Remove (packageList st) p)"
    by (rule length_fold_Remove)
  ultimately show ?thesis by (simp add: packageList_remove_found pS)
qed

text \<open>Lines 111 to 117: the destination is searched for the name and architecture of
  \<open>pkg\<close>, whatever is found is removed, until the search returns nothing.\<close>

function remove_same :: "context \<Rightarrow> package \<Rightarrow> pull_state \<Rightarrow> pull_state" where
  "remove_same ctx pkg st =
     (let pS = Search (CompareVersions ctx) (packageList st)
                 \<lparr>Pkg = pkg_Name pkg, Architecture = pkg_Architecture pkg, Constraint = None\<rparr>
                 (flag_all_matches ctx)
      in if pS = [] then st else remove_same ctx pkg (remove_found pS st))"
  by pat_completeness auto
termination
  by (relation "measure (\<lambda>(ctx, pkg, st). length (packageList st))")
     (auto intro!: remove_found_shrinks Search_subset)

declare remove_same.simps [simp del]

text \<open>Lines 122 to 125: a found package is added to the destination and reported.\<close>

definition add_found :: "package \<Rightarrow> pull_state \<Rightarrow> pull_state" where
  "add_found pkg st =
     st\<lparr>packageList := Add (packageList st) pkg, progress := progress st @ [Added pkg]\<rparr>"

text \<open>Lines 144 to 150: is \<open>misDep\<close> in the work list already?\<close>

fun found :: "Dependency list \<Rightarrow> Dependency \<Rightarrow> bool" where
  "found [] misDep = False"
| "found (d # ds) misDep = (if d = misDep then True else found ds misDep)"

text \<open>Lines 143 to 155: the missing dependencies not yet in the work list are appended.\<close>

definition append_missing :: "Dependency list \<Rightarrow> Dependency list \<Rightarrow> Dependency list" where
  "append_missing missing deps =
     fold (\<lambda>misDep ds. if \<not> found ds misDep then ds @ [misDep] else ds) missing deps"

text \<open>Lines 133 to 156, one round of the loop over the search result: the package joins the
  list \<open>pL\<close>, the dependencies of \<open>pL\<close> are verified against the destination for the one
  architecture, the result is assigned to \<^verbatim>\<open>err\<close>, an error is reported, and the missing
  dependencies are appended to the work list.\<close>

definition verify_found ::
  "context \<Rightarrow> string \<Rightarrow> package \<Rightarrow> package list \<times> pull_state \<Rightarrow> package list \<times> pull_state" where
  "verify_found ctx arch pkg acc =
     (let pL = Add (fst acc) pkg;
          st = snd acc;
          res = VerifyDependencies (CompareVersions ctx) pL [arch] (packageList st);
          st1 = st\<lparr>err := snd res\<rparr>;
          st2 = (case snd res of
                   None \<Rightarrow> st1
                 | Some e \<Rightarrow> st1\<lparr>progress := progress st1 @ [VerifyError pkg e]\<rparr>)
      in (pL, st2\<lparr>dependencies := append_missing (fst res) (dependencies st2)\<rparr>))"

text \<open>Lines 99 to 156: the body of the loop over the work list, at index \<open>i\<close>.\<close>

definition closure_body :: "context \<Rightarrow> Snapshot \<Rightarrow> string \<Rightarrow> nat \<Rightarrow> pull_state \<Rightarrow> pull_state" where
  "closure_body ctx source arch i st =
     (let dep = dependencies st ! i;
          searchResults = Search (CompareVersions ctx) (sourcePackageList st) dep
                            (flag_all_matches ctx)
      in if searchResults = [] then st\<lparr>progress := progress st @ [CantBeSatisfied dep source]\<rparr>
         else
           let st1 = (if \<not> flag_no_remove ctx then fold (remove_same ctx) searchResults st
                      else st);
               st2 = fold add_found searchResults st1
           in if flag_no_deps ctx then st2
              else snd (fold (verify_found ctx arch) searchResults ([], st2)))"



text \<open>The work list only grows at its end, by distinct new expressions taken from a
  set \<open>U\<close>: the relation between the list before and after.\<close>

lemma found_iff: "found ds d \<longleftrightarrow> d \<in> set ds"
  by (induction ds) auto

definition extends :: "Dependency set \<Rightarrow> Dependency list \<Rightarrow> Dependency list \<Rightarrow> bool" where
  "extends U W W' \<longleftrightarrow> (\<exists>ns. W' = W @ ns \<and> distinct ns \<and> set ns \<inter> set W = {} \<and> set ns \<subseteq> U)"

lemma extends_refl: "extends U W W"
  by (simp add: extends_def)

lemma extends_trans: "extends U W W' \<Longrightarrow> extends U W' W'' \<Longrightarrow> extends U W W''"
  unfolding extends_def by (elim exE conjE) (rule_tac x = "ns @ nsa" in exI, auto)

lemma extends_mono: "extends U W W' \<Longrightarrow> U \<subseteq> V \<Longrightarrow> extends V W W'"
  unfolding extends_def by blast

lemma extends_append_missing: "extends (set ms) W (append_missing ms W)"
proof (induction ms arbitrary: W)
  case Nil
  show ?case by (simp add: append_missing_def extends_refl)
next
  case (Cons m ms)
  let ?W1 = "if \<not> found W m then W @ [m] else W"
  have step: "extends (set (m # ms)) W ?W1"
    by (auto simp: extends_def found_iff)
  have "extends (set ms) ?W1 (append_missing ms ?W1)" by (rule Cons.IH)
  then have "extends (set (m # ms)) ?W1 (append_missing ms ?W1)"
    by (rule extends_mono) auto
  with step have "extends (set (m # ms)) W (append_missing ms ?W1)"
    by (rule extends_trans)
  then show ?case by (simp add: append_missing_def)
qed

lemma extends_bound:
  assumes "extends U W W'" and "finite U"
  shows "length W' + card (U - set W') = length W + card (U - set W)"
proof -
  from assms(1) obtain ns where ns: "W' = W @ ns" "distinct ns" "set ns \<inter> set W = {}" "set ns \<subseteq> U"
    unfolding extends_def by blast
  have "U - set W = (U - set W') \<union> set ns" using ns by auto
  moreover have "(U - set W') \<inter> set ns = {}" using ns by auto
  ultimately have "card (U - set W) = card (U - set W') + card (set ns)"
    using assms(2) by (simp add: card_Un_disjoint)
  then show ?thesis using ns by (simp add: distinct_card)
qed


text \<open>The dependency expressions that the packages of a set declare, bound to one
  architecture: what verification can report as missing.\<close>

definition declared :: "package list \<Rightarrow> string \<Rightarrow> Dependency list" where
  "declared l arch = concat (map (expand [arch]) l)"

lemma remove_found_frame:
  "dependencies (remove_found pS st) = dependencies st \<and>
   sourcePackageList (remove_found pS st) = sourcePackageList st \<and>
   err (remove_found pS st) = err st"
  unfolding remove_found_def by (induction pS arbitrary: st) auto

lemma remove_same_frame:
  "dependencies (remove_same ctx pkg st) = dependencies st \<and>
   sourcePackageList (remove_same ctx pkg st) = sourcePackageList st \<and>
   err (remove_same ctx pkg st) = err st"
proof (induction ctx pkg st rule: remove_same.induct)
  case (1 ctx pkg st)
  show ?case
    using "1.IH" [OF refl] remove_found_frame
    by (subst (1 2 3) remove_same.simps) (simp add: Let_def)
qed

lemma fold_remove_same_frame:
  "dependencies (fold (remove_same ctx) rs st) = dependencies st \<and>
   sourcePackageList (fold (remove_same ctx) rs st) = sourcePackageList st \<and>
   err (fold (remove_same ctx) rs st) = err st"
  by (induction rs arbitrary: st) (auto simp: remove_same_frame)

lemma fold_add_found_frame:
  "dependencies (fold add_found rs st) = dependencies st \<and>
   sourcePackageList (fold add_found rs st) = sourcePackageList st \<and>
   err (fold add_found rs st) = err st"
  by (induction rs arbitrary: st) (auto simp: add_found_def)

lemma VerifyDependencies_subset:
  "set (fst (VerifyDependencies cmp pL archs l)) \<subseteq> (\<Union>p\<in>set pL. set (expand archs p))"
  by (auto simp: VerifyDependencies_def Let_def)

lemma set_Add: "set (Add l p) = insert p (set l)"
  by (auto simp: Add_def)

lemma verify_found_frame:
  "sourcePackageList (snd (verify_found ctx arch pkg acc)) = sourcePackageList (snd acc) \<and>
   packageList (snd (verify_found ctx arch pkg acc)) = packageList (snd acc) \<and>
   fst (verify_found ctx arch pkg acc) = Add (fst acc) pkg"
  by (simp add: verify_found_def Let_def split: option.splits)

lemma verify_found_extends:
  "extends (\<Union>p\<in>insert pkg (set (fst acc)). set (expand [arch] p))
     (dependencies (snd acc)) (dependencies (snd (verify_found ctx arch pkg acc)))"
proof -
  let ?res = "VerifyDependencies (CompareVersions ctx) (Add (fst acc) pkg) [arch] (packageList (snd acc))"
  have "extends (set (fst ?res)) (dependencies (snd acc)) (append_missing (fst ?res) (dependencies (snd acc)))"
    by (rule extends_append_missing)
  moreover have "set (fst ?res) \<subseteq> (\<Union>p\<in>insert pkg (set (fst acc)). set (expand [arch] p))"
    using VerifyDependencies_subset [of "CompareVersions ctx" "Add (fst acc) pkg" "[arch]"]
    by (simp add: set_Add)
  ultimately have "extends (\<Union>p\<in>insert pkg (set (fst acc)). set (expand [arch] p))
      (dependencies (snd acc)) (append_missing (fst ?res) (dependencies (snd acc)))"
    by (rule extends_mono)
  then show ?thesis
    by (simp add: verify_found_def Let_def split: option.splits)
qed

lemma fold_verify_found_frame:
  "sourcePackageList (snd (fold (verify_found ctx arch) rs acc)) = sourcePackageList (snd acc) \<and>
   packageList (snd (fold (verify_found ctx arch) rs acc)) = packageList (snd acc) \<and>
   fst (fold (verify_found ctx arch) rs acc) = fold (\<lambda>p l. Add l p) rs (fst acc)"
  by (induction rs arbitrary: acc) (auto simp: verify_found_frame)

lemma fold_verify_found_extends:
  "extends (\<Union>p\<in>set rs \<union> set (fst acc). set (expand [arch] p))
     (dependencies (snd acc)) (dependencies (snd (fold (verify_found ctx arch) rs acc)))"
proof (induction rs arbitrary: acc)
  case Nil
  show ?case by (simp add: extends_refl)
next
  case (Cons r rs)
  let ?E = "\<lambda>S. \<Union>p\<in>S. set (expand [arch] p)"
  let ?acc1 = "verify_found ctx arch r acc"
  have mono: "?E S \<subseteq> ?E T" if "S \<subseteq> T" for S T :: "package set"
    using that by blast
  have "extends (?E (insert r (set (fst acc))))
     (dependencies (snd acc)) (dependencies (snd ?acc1))"
    by (rule verify_found_extends)
  moreover have "?E (insert r (set (fst acc))) \<subseteq> ?E (set (r # rs) \<union> set (fst acc))"
    by (rule mono) auto
  ultimately have a: "extends (?E (set (r # rs) \<union> set (fst acc)))
     (dependencies (snd acc)) (dependencies (snd ?acc1))"
    by (rule extends_mono)
  have f: "fst ?acc1 = Add (fst acc) r" by (simp add: verify_found_frame)
  have "extends (?E (set rs \<union> set (fst ?acc1)))
     (dependencies (snd ?acc1)) (dependencies (snd (fold (verify_found ctx arch) rs ?acc1)))"
    by (rule Cons.IH)
  moreover have "?E (set rs \<union> set (fst ?acc1)) \<subseteq> ?E (set (r # rs) \<union> set (fst acc))"
    by (rule mono) (auto simp: f set_Add)
  ultimately have b: "extends (?E (set (r # rs) \<union> set (fst acc)))
     (dependencies (snd ?acc1)) (dependencies (snd (fold (verify_found ctx arch) rs ?acc1)))"
    by (rule extends_mono)
  from a b have "extends (?E (set (r # rs) \<union> set (fst acc)))
     (dependencies (snd acc)) (dependencies (snd (fold (verify_found ctx arch) rs ?acc1)))"
    by (rule extends_trans)
  then show ?case by simp
qed

lemma closure_body_source:
  "sourcePackageList (closure_body ctx source arch i st) = sourcePackageList st"
  by (simp add: closure_body_def Let_def fold_verify_found_frame fold_add_found_frame
      fold_remove_same_frame)

lemma closure_body_extends:
  "extends (set (declared (sourcePackageList st) arch))
     (dependencies st) (dependencies (closure_body ctx source arch i st))"
proof -
  let ?rs = "Search (CompareVersions ctx) (sourcePackageList st) (dependencies st ! i) (flag_all_matches ctx)"
  let ?st1 = "if \<not> flag_no_remove ctx then fold (remove_same ctx) ?rs st else st"
  let ?st2 = "fold add_found ?rs ?st1"
  have d2: "dependencies ?st2 = dependencies st"
    by (simp add: fold_add_found_frame fold_remove_same_frame)
  have "extends (\<Union>p\<in>set ?rs \<union> set (fst ([]::package list, ?st2)). set (expand [arch] p))
     (dependencies (snd ([]::package list, ?st2)))
     (dependencies (snd (fold (verify_found ctx arch) ?rs ([], ?st2))))"
    by (rule fold_verify_found_extends)
  then have "extends (set (declared (sourcePackageList st) arch))
     (dependencies st) (dependencies (snd (fold (verify_found ctx arch) ?rs ([], ?st2))))"
    unfolding d2 snd_conv fst_conv
    by (rule extends_mono) (use Search_subset [of "CompareVersions ctx" "sourcePackageList st"] in \<open>auto simp: declared_def\<close>)
  then show ?thesis
    by (simp add: closure_body_def Let_def extends_refl d2)
qed


lemma closure_body_bound:
  "length (dependencies (closure_body ctx source arch i st)) +
     card (set (declared (sourcePackageList st) arch) - set (dependencies (closure_body ctx source arch i st)))
   = length (dependencies st) + card (set (declared (sourcePackageList st) arch) - set (dependencies st))"
  by (rule extends_bound [OF closure_body_extends]) simp

text \<open>Line 98: the loop over the growing work list, from index \<open>i\<close>. It terminates
  because the body appends only declared expressions that the list does not hold.\<close>

function closure_loop :: "context \<Rightarrow> Snapshot \<Rightarrow> string \<Rightarrow> nat \<Rightarrow> pull_state \<Rightarrow> pull_state" where
  "closure_loop ctx source arch i st =
     (if i < length (dependencies st)
      then closure_loop ctx source arch (i + 1) (closure_body ctx source arch i st)
      else st)"
  by pat_completeness auto
termination
proof (relation "measure (\<lambda>(ctx, source, arch, i, st).
    length (dependencies st) + card (set (declared (sourcePackageList st) arch) - set (dependencies st)) - i)")
  show "wf (measure (\<lambda>(ctx, source, arch, i, st).
    length (dependencies st) + card (set (declared (sourcePackageList st) arch) - set (dependencies st)) - i))"
    by simp
next
  fix ctx :: "context" and source :: Snapshot and arch :: string and i :: nat and st :: pull_state
  assume "i < length (dependencies st)"
  then show "((ctx, source, arch, i + 1, closure_body ctx source arch i st), (ctx, source, arch, i, st))
    \<in> measure (\<lambda>(ctx, source, arch, i, st).
    length (dependencies st) + card (set (declared (sourcePackageList st) arch) - set (dependencies st)) - i)"
    by (simp add: closure_body_source closure_body_bound)
qed


declare closure_loop.simps [simp del]

text \<open>Lines 91 to 157: the work list of one architecture is the initial dependencies with
  the architecture set, and the loop runs from index 0.\<close>

definition pull_arch ::
  "context \<Rightarrow> Snapshot \<Rightarrow> Dependency list \<Rightarrow> string \<Rightarrow> pull_state \<Rightarrow> pull_state" where
  "pull_arch ctx source initialDependencies arch st =
     closure_loop ctx source arch 0
       (st\<lparr>dependencies := map (\<lambda>d. d\<lparr>Architecture := arch\<rparr>) initialDependencies\<rparr>)"

text \<open>Lines 90 to 158: the loop over the architectures.\<close>

definition perform_pull ::
  "context \<Rightarrow> Snapshot \<Rightarrow> Dependency list \<Rightarrow> string list \<Rightarrow> pull_state \<Rightarrow> pull_state" where
  "perform_pull ctx source initialDependencies architecturesList st =
     fold (pull_arch ctx source initialDependencies) architecturesList st"

section \<open>The command\<close>

text \<open>Lines 25 to 63: both snapshots are looked up and loaded, the banner is printed, both
  package lists are built (\<open>pl\<close> is \<^verbatim>\<open>packageList\<close>, \<open>spl\<close> is
  \<^verbatim>\<open>sourcePackageList\<close>). The result is the context with its progress output and
  either the error returned or the four values.\<close>

definition load_snapshots ::
  "context \<Rightarrow> string list
     \<Rightarrow> context \<times> (error + Snapshot \<times> Snapshot \<times> package list \<times> package list)" where
  "load_snapshots ctx args =
     (case ByName (SnapshotCollection ctx) (args ! 0) of
        Inl e \<Rightarrow> (ctx, Inl (UnableToPull e))
      | Inr snapshot \<Rightarrow>
     (case LoadComplete ctx snapshot of
        Some e \<Rightarrow> (ctx, Inl (UnableToPull e))
      | None \<Rightarrow>
     (case ByName (SnapshotCollection ctx) (args ! 1) of
        Inl e \<Rightarrow> (ctx, Inl (UnableToPull e))
      | Inr source \<Rightarrow>
     (case LoadComplete ctx source of
        Some e \<Rightarrow> (ctx, Inl (UnableToPull e))
      | None \<Rightarrow>
     (let ctx1 = ctx\<lparr>Progress := Progress ctx @
                   [PullBanner snapshot source (args ! 2),
                    LoadingPackages (length (RefList snapshot) + length (RefList source))]\<rparr>
      in case NewPackageListFromRefList ctx (RefList snapshot) of
        Inl e \<Rightarrow> (ctx1, Inl (UnableToLoadPackages e))
      | Inr pl \<Rightarrow>
     (case NewPackageListFromRefList ctx (RefList source) of
        Inl e \<Rightarrow> (ctx1, Inl (UnableToLoadPackages e))
      | Inr spl \<Rightarrow>
          (ctx1\<lparr>Progress := Progress ctx1 @ [BuildingIndexes]\<rparr>,
           Inr (snapshot, source, pl, spl))))))))"

text \<open>Lines 66 to 74: the configured architectures when there are any, else those of the
  destination package list without the source pseudo-architecture; sorted. Go's
  \<^verbatim>\<open>sort.Strings\<close> orders strings bytewise, as the lexicographic order on character
  lists does. It sorts in place; the command reads only the sorted list afterwards.\<close>

definition calculate_architectures :: "context \<Rightarrow> package list \<Rightarrow> string list" where
  "calculate_architectures ctx pl =
     sort (if 0 < length (ArchitecturesList ctx) then ArchitecturesList ctx
           else Architectures pl False)"

text \<open>Lines 81 to 87: the arguments are parsed from left to right; the first failure is
  returned.\<close>

fun parse_arguments :: "(string \<Rightarrow> error + Dependency) \<Rightarrow> string list \<Rightarrow> error + Dependency list" where
  "parse_arguments parse [] = Inr []"
| "parse_arguments parse (arg # rest) =
     (case parse arg of
        Inl e \<Rightarrow> Inl (UnableToParseArgument e)
      | Inr d \<Rightarrow>
          (case parse_arguments parse rest of
             Inl e' \<Rightarrow> Inl e'
           | Inr ds \<Rightarrow> Inr (d # ds)))"

text \<open>\<^verbatim>\<open>strings.Join\<close>, and the description of line 165.\<close>

fun Join :: "string list \<Rightarrow> string \<Rightarrow> string" where
  "Join [] sep = []"
| "Join [x] sep = x"
| "Join (x # y # zs) sep = x @ sep @ Join (y # zs) sep"

definition pull_description :: "Snapshot \<Rightarrow> Snapshot \<Rightarrow> string list \<Rightarrow> string" where
  "pull_description snapshot source args =
     ''Pulled into '' @ [CHR 0x27] @ Name snapshot @ [CHR 0x27] @ '' with '' @ [CHR 0x27] @
     Name source @ [CHR 0x27] @ '' as source, pull request was: '' @ [CHR 0x27] @
     Join (drop 3 args) '' '' @ [CHR 0x27]"

text \<open>Lines 160 to 174: with \<^verbatim>\<open>dry-run\<close> nothing is created and the shared \<^verbatim>\<open>err\<close> is
  returned as the loops left it; otherwise the new snapshot is built from the destination
  package list with the two snapshots as parents and is added to the collection, and
  \<^verbatim>\<open>err\<close> is the outcome of that.\<close>

definition create_snapshot ::
  "context \<Rightarrow> string list \<Rightarrow> Snapshot \<Rightarrow> Snapshot \<Rightarrow> pull_state \<Rightarrow> error option \<times> context" where
  "create_snapshot ctx args snapshot source st =
     (if flag_dry_run ctx
      then (err st, ctx\<lparr>Progress := progress st @ [NotCreatingSnapshot]\<rparr>)
      else
        let destination = NewSnapshotFromPackageList (args ! 2) [snapshot, source]
                            (packageList st) (pull_description snapshot source args)
        in case CollectionAdd (SnapshotCollection ctx) destination of
             Inl e \<Rightarrow> (Some (UnableToCreateSnapshot e), ctx\<lparr>Progress := progress st\<rparr>)
           | Inr coll \<Rightarrow>
               (None, ctx\<lparr>SnapshotCollection := coll,
                         Progress := progress st @ [SnapshotCreated (Name destination)]\<rparr>))"

text \<open>The state in which the loop over the architectures starts (line 90): the two package
  lists as loaded, \<^verbatim>\<open>err\<close> nil after the last successful parse, no work list yet.\<close>

definition initial_state :: "context \<Rightarrow> package list \<Rightarrow> package list \<Rightarrow> pull_state" where
  "initial_state ctx pl spl =
     \<lparr>packageList = pl, sourcePackageList = spl, dependencies = [], err = None,
      progress = Progress ctx\<rparr>"

text \<open>\<^verbatim>\<open>aptlySnapshotPull\<close>, lines 13 to 175: the returned error and the context after the
  command.\<close>

definition aptlySnapshotPull :: "context \<Rightarrow> string list \<Rightarrow> error option \<times> context" where
  "aptlySnapshotPull ctx args =
     (if length args < 4 then (Some ErrCommandError, ctx\<lparr>Progress := Progress ctx @ [Usage]\<rparr>)
      else
        case load_snapshots ctx args of
          (ctx1, Inl e) \<Rightarrow> (Some e, ctx1)
        | (ctx1, Inr (snapshot, source, pl, spl)) \<Rightarrow>
            (let architecturesList = calculate_architectures ctx1 pl
             in if length architecturesList = 0 then (Some NoArchitectures, ctx1)
                else
                  (case parse_arguments (ParseDependency ctx1) (drop 3 args) of
                     Inl e \<Rightarrow> (Some e, ctx1)
                   | Inr initialDependencies \<Rightarrow>
                       create_snapshot ctx1 args snapshot source
                         (perform_pull ctx1 source initialDependencies architecturesList
                            (initial_state ctx1 pl spl)))))"

section \<open>Properties of the loops\<close>

text \<open>The packages that the progress output reports as added, in order: one entry for
  each call of \<^verbatim>\<open>packageList.Add\<close> (line 123 is followed by line 124).\<close>

definition added :: "event list \<Rightarrow> package list" where
  "added es = concat (map (\<lambda>e. case e of Added p \<Rightarrow> [p] | _ \<Rightarrow> []) es)"

lemma added_append [simp]: "added (xs @ ys) = added xs @ added ys"
  by (simp add: added_def)

lemma added_Nil [simp]: "added [] = []"
  by (simp add: added_def)

lemma added_map_Added [simp]: "added (map Added ps) = ps"
  by (induction ps) (auto simp: added_def)

lemma added_map_Removed [simp]: "added (map Removed ps) = []"
  by (induction ps) (auto simp: added_def)

lemma progress_remove_found: "progress (remove_found pS st) = progress st @ map Removed pS"
  unfolding remove_found_def by (induction pS arbitrary: st) auto

lemma progress_remove_same:
  "\<exists>ps. progress (remove_same ctx pkg st) = progress st @ map Removed ps"
proof (induction ctx pkg st rule: remove_same.induct)
  case (1 ctx pkg st)
  let ?pS = "Search (CompareVersions ctx) (packageList st)
     \<lparr>Pkg = pkg_Name pkg, Architecture = pkg_Architecture pkg, Constraint = None\<rparr> (flag_all_matches ctx)"
  show ?case
  proof (cases "?pS = []")
    case True
    then have "remove_same ctx pkg st = st"
      by (subst remove_same.simps) (simp add: Let_def)
    then show ?thesis by simp
  next
    case False
    then have eq: "remove_same ctx pkg st = remove_same ctx pkg (remove_found ?pS st)"
      by (subst remove_same.simps) (simp add: Let_def)
    from "1.IH" [OF refl False] obtain ps where
      "progress (remove_same ctx pkg (remove_found ?pS st)) = progress (remove_found ?pS st) @ map Removed ps"
      by blast
    then have "progress (remove_same ctx pkg st) = progress st @ map Removed (?pS @ ps)"
      by (simp add: eq progress_remove_found)
    then show ?thesis by blast
  qed
qed

lemma progress_fold_remove_same:
  "\<exists>ps. progress (fold (remove_same ctx) rs st) = progress st @ map Removed ps"
proof (induction rs arbitrary: st)
  case Nil
  show ?case by simp
next
  case (Cons r rs)
  obtain ps where a: "progress (remove_same ctx r st) = progress st @ map Removed ps"
    using progress_remove_same by blast
  obtain qs where b: "progress (fold (remove_same ctx) rs (remove_same ctx r st))
      = progress (remove_same ctx r st) @ map Removed qs"
    using Cons.IH by blast
  have "progress (fold (remove_same ctx) (r # rs) st) = progress st @ map Removed (ps @ qs)"
    by (simp add: a b)
  then show ?case by blast
qed

lemma progress_fold_add_found:
  "progress (fold add_found rs st) = progress st @ map Added rs"
  by (induction rs arbitrary: st) (auto simp: add_found_def)

lemma progress_verify_found:
  "\<exists>es. progress (snd (verify_found ctx arch pkg acc)) = progress (snd acc) @ es \<and> added es = []"
  by (cases "snd (VerifyDependencies (CompareVersions ctx) (Add (fst acc) pkg) [arch] (packageList (snd acc)))")
     (simp_all add: verify_found_def Let_def added_def)

lemma progress_fold_verify_found:
  "\<exists>es. progress (snd (fold (verify_found ctx arch) rs acc)) = progress (snd acc) @ es \<and> added es = []"
proof (induction rs arbitrary: acc)
  case Nil
  show ?case by simp
next
  case (Cons r rs)
  obtain es where a: "progress (snd (verify_found ctx arch r acc)) = progress (snd acc) @ es" "added es = []"
    using progress_verify_found by blast
  obtain fs where b: "progress (snd (fold (verify_found ctx arch) rs (verify_found ctx arch r acc)))
      = progress (snd (verify_found ctx arch r acc)) @ fs" "added fs = []"
    using Cons.IH by blast
  have "progress (snd (fold (verify_found ctx arch) (r # rs) acc)) = progress (snd acc) @ (es @ fs) \<and> added (es @ fs) = []"
    by (simp add: a b)
  then show ?case by blast
qed


text \<open>A work-list entry has been processed, as the progress output shows it: the
  diagnostic of line 104 when the search of the source finds nothing, the report of
  line 124 for every package found otherwise.\<close>

definition processed :: "context \<Rightarrow> Snapshot \<Rightarrow> package list \<Rightarrow> event list \<Rightarrow> Dependency \<Rightarrow> bool" where
  "processed ctx source spl evs d =
     (let rs = Search (CompareVersions ctx) spl d (flag_all_matches ctx)
      in if rs = [] then CantBeSatisfied d source \<in> set evs
         else set (map Added rs) \<subseteq> set evs)"

lemma processed_mono:
  "processed ctx source spl evs d \<Longrightarrow> set evs \<subseteq> set evs' \<Longrightarrow> processed ctx source spl evs' d"
  unfolding processed_def Let_def by (cases "Search (CompareVersions ctx) spl d (flag_all_matches ctx) = []") auto

lemma closure_body_unsatisfied:
  "Search (CompareVersions ctx) (sourcePackageList st) (dependencies st ! i) (flag_all_matches ctx) = []
   \<Longrightarrow> closure_body ctx source arch i st
       = st\<lparr>progress := progress st @ [CantBeSatisfied (dependencies st ! i) source]\<rparr>"
  by (simp add: closure_body_def)

lemma closure_body_progress:
  "\<exists>es. progress (closure_body ctx source arch i st) = progress st @ es \<and>
     added es = Search (CompareVersions ctx) (sourcePackageList st) (dependencies st ! i) (flag_all_matches ctx)"
proof -
  let ?rs = "Search (CompareVersions ctx) (sourcePackageList st) (dependencies st ! i) (flag_all_matches ctx)"
  let ?st1 = "if \<not> flag_no_remove ctx then fold (remove_same ctx) ?rs st else st"
  let ?st2 = "fold add_found ?rs ?st1"
  show ?thesis
  proof (cases "?rs = []")
    case True
    then show ?thesis by (simp add: closure_body_unsatisfied added_def)
  next
    case False
    obtain ps where p1: "progress ?st1 = progress st @ map Removed ps"
      using progress_fold_remove_same [of ctx ?rs st] by (cases "flag_no_remove ctx") auto
    have p2: "progress ?st2 = progress st @ map Removed ps @ map Added ?rs"
      by (simp only: progress_fold_add_found p1 append_assoc)
    obtain es where p3: "progress (snd (fold (verify_found ctx arch) ?rs ([], ?st2))) = progress ?st2 @ es"
      "added es = []"
      using progress_fold_verify_found [of ctx arch ?rs "([], ?st2)"] by auto
    have body: "closure_body ctx source arch i st =
       (if flag_no_deps ctx then ?st2 else snd (fold (verify_found ctx arch) ?rs ([], ?st2)))"
      using False by (simp add: closure_body_def Let_def)
    show ?thesis
    proof (cases "flag_no_deps ctx")
      case True
      with body have "progress (closure_body ctx source arch i st) = progress st @ (map Removed ps @ map Added ?rs)"
        by (simp only: p2 if_True)
      moreover have "added (map Removed ps @ map Added ?rs) = ?rs" by simp
      ultimately show ?thesis by blast
    next
      case False
      with body have "progress (closure_body ctx source arch i st) = progress st @ (map Removed ps @ map Added ?rs @ es)"
        by (simp only: p2 p3 if_False append_assoc)
      moreover have "added (map Removed ps @ map Added ?rs @ es) = ?rs" by (simp add: p3)
      ultimately show ?thesis by blast
    qed
  qed
qed

lemma added_subset: "set (map Added (added es)) \<subseteq> set es"
proof (induction es)
  case Nil
  show ?case by simp
next
  case (Cons e es)
  then show ?case by (cases e) (auto simp: added_def)
qed

lemma closure_body_processed:
  "processed ctx source (sourcePackageList st) (progress (closure_body ctx source arch i st))
     (dependencies st ! i)"
proof -
  let ?rs = "Search (CompareVersions ctx) (sourcePackageList st) (dependencies st ! i) (flag_all_matches ctx)"
  show ?thesis
  proof (cases "?rs = []")
    case True
    then show ?thesis by (simp add: closure_body_unsatisfied processed_def)
  next
    case False
    obtain es where es: "progress (closure_body ctx source arch i st) = progress st @ es" "added es = ?rs"
      using closure_body_progress by blast
    have "set (map Added ?rs) \<subseteq> set es" using added_subset [of es] by (simp only: es)
    then have "set (map Added ?rs) \<subseteq> set (progress (closure_body ctx source arch i st))"
      by (auto simp: es(1))
    with False show ?thesis by (simp add: processed_def)
  qed
qed

lemma closure_loop_source:
  "sourcePackageList (closure_loop ctx source arch i st) = sourcePackageList st"
proof (induction ctx source arch i st rule: closure_loop.induct)
  case (1 ctx source arch i st)
  show ?case
  proof (cases "i < length (dependencies st)")
    case True
    then have "closure_loop ctx source arch i st
        = closure_loop ctx source arch (i + 1) (closure_body ctx source arch i st)"
      by (subst closure_loop.simps) simp
    with "1.IH" [OF True] show ?thesis by (simp add: closure_body_source)
  next
    case False
    then have "closure_loop ctx source arch i st = st" by (subst closure_loop.simps) simp
    then show ?thesis by simp
  qed
qed

lemma closure_loop_processed:
  "\<forall>j<i. processed ctx source (sourcePackageList st) (progress st) (dependencies st ! j)
   \<Longrightarrow> i \<le> length (dependencies st)
   \<Longrightarrow> \<forall>d\<in>set (dependencies (closure_loop ctx source arch i st)).
         processed ctx source (sourcePackageList st) (progress (closure_loop ctx source arch i st)) d"
proof (induction ctx source arch i st rule: closure_loop.induct)
  case (1 ctx source arch i st)
  show ?case
  proof (cases "i < length (dependencies st)")
    case True
    let ?b = "closure_body ctx source arch i st"
    have unfold: "closure_loop ctx source arch i st = closure_loop ctx source arch (i + 1) ?b"
      using True by (subst closure_loop.simps) simp
    obtain ns where ns: "dependencies ?b = dependencies st @ ns"
      using closure_body_extends [of st arch ctx source i] unfolding extends_def by blast
    obtain es where es: "progress ?b = progress st @ es"
      using closure_body_progress by blast
    have src: "sourcePackageList ?b = sourcePackageList st" by (rule closure_body_source)
    have inv: "\<forall>j<i + 1. processed ctx source (sourcePackageList ?b) (progress ?b) (dependencies ?b ! j)"
    proof (intro allI impI)
      fix j assume j: "j < i + 1"
      with True have nth: "dependencies ?b ! j = dependencies st ! j"
        by (simp add: ns nth_append)
      show "processed ctx source (sourcePackageList ?b) (progress ?b) (dependencies ?b ! j)"
      proof (cases "j = i")
        case True
        then show ?thesis unfolding src nth by (simp add: closure_body_processed)
      next
        case False
        with j have "j < i" by simp
        with "1.prems"(1) have "processed ctx source (sourcePackageList st) (progress st) (dependencies st ! j)"
          by blast
        then show ?thesis unfolding src nth by (rule processed_mono) (simp add: es)
      qed
    qed
    have "i + 1 \<le> length (dependencies ?b)" using True by (simp add: ns)
    from "1.IH" [OF True inv this] show ?thesis by (simp only: unfold src)
  next
    case False
    with "1.prems"(2) have i: "i = length (dependencies st)" by simp
    have "closure_loop ctx source arch i st = st" using False by (subst closure_loop.simps) simp
    then show ?thesis using "1.prems"(1) i by (auto simp: in_set_conv_nth)
  qed
qed

lemma closure_loop_extends:
  "extends (set (declared (sourcePackageList st) arch))
     (dependencies st) (dependencies (closure_loop ctx source arch i st))"
proof (induction ctx source arch i st rule: closure_loop.induct)
  case (1 ctx source arch i st)
  show ?case
  proof (cases "i < length (dependencies st)")
    case True
    let ?b = "closure_body ctx source arch i st"
    have unfold: "closure_loop ctx source arch i st = closure_loop ctx source arch (i + 1) ?b"
      using True by (subst closure_loop.simps) simp
    have "extends (set (declared (sourcePackageList st) arch)) (dependencies st) (dependencies ?b)"
      by (rule closure_body_extends)
    moreover have "extends (set (declared (sourcePackageList st) arch)) (dependencies ?b)
        (dependencies (closure_loop ctx source arch (i + 1) ?b))"
      using "1.IH" [OF True] by (simp only: closure_body_source)
    ultimately show ?thesis unfolding unfold by (rule extends_trans)
  next
    case False
    then have "closure_loop ctx source arch i st = st" by (subst closure_loop.simps) simp
    then show ?thesis by (simp add: extends_refl)
  qed
qed

lemma closure_loop_progress:
  "\<exists>es. progress (closure_loop ctx source arch i st) = progress st @ es"
proof (induction ctx source arch i st rule: closure_loop.induct)
  case (1 ctx source arch i st)
  show ?case
  proof (cases "i < length (dependencies st)")
    case True
    let ?b = "closure_body ctx source arch i st"
    have unfold: "closure_loop ctx source arch i st = closure_loop ctx source arch (i + 1) ?b"
      using True by (subst closure_loop.simps) simp
    obtain es where es: "progress ?b = progress st @ es"
      using closure_body_progress by blast
    obtain fs where "progress (closure_loop ctx source arch (i + 1) ?b) = progress ?b @ fs"
      using "1.IH" [OF True] by blast
    then have "progress (closure_loop ctx source arch i st) = progress st @ (es @ fs)"
      by (simp add: unfold es)
    then show ?thesis by blast
  next
    case False
    then have "closure_loop ctx source arch i st = st" by (subst closure_loop.simps) simp
    then show ?thesis by simp
  qed
qed

lemma pull_arch_source:
  "sourcePackageList (pull_arch ctx source init arch st) = sourcePackageList st"
  by (simp add: pull_arch_def closure_loop_source)

lemma pull_arch_progress:
  "\<exists>es. progress (pull_arch ctx source init arch st) = progress st @ es"
  using closure_loop_progress [of ctx source arch 0 "st\<lparr>dependencies := map (\<lambda>d. d\<lparr>Architecture := arch\<rparr>) init\<rparr>"]
  by (simp add: pull_arch_def)

lemma pull_arch_extends:
  "extends (set (declared (sourcePackageList st) arch))
     (map (\<lambda>d. d\<lparr>Architecture := arch\<rparr>) init) (dependencies (pull_arch ctx source init arch st))"
  using closure_loop_extends [of "st\<lparr>dependencies := map (\<lambda>d. d\<lparr>Architecture := arch\<rparr>) init\<rparr>" arch ctx source 0]
  by (simp add: pull_arch_def)

lemma pull_arch_processed:
  "\<forall>d\<in>set (dependencies (pull_arch ctx source init arch st)).
     processed ctx source (sourcePackageList st) (progress (pull_arch ctx source init arch st)) d"
  using closure_loop_processed [of 0 ctx source "st\<lparr>dependencies := map (\<lambda>d. d\<lparr>Architecture := arch\<rparr>) init\<rparr>" arch]
  by (simp add: pull_arch_def)

lemma perform_pull_source:
  "sourcePackageList (perform_pull ctx source init archs st) = sourcePackageList st"
  unfolding perform_pull_def by (induction archs arbitrary: st) (simp_all add: pull_arch_source)

lemma perform_pull_progress:
  "\<exists>es. progress (perform_pull ctx source init archs st) = progress st @ es"
  unfolding perform_pull_def
proof (induction archs arbitrary: st)
  case Nil
  show ?case by simp
next
  case (Cons a archs)
  obtain es where es: "progress (pull_arch ctx source init a st) = progress st @ es"
    using pull_arch_progress by blast
  obtain fs where "progress (fold (pull_arch ctx source init) archs (pull_arch ctx source init a st))
      = progress (pull_arch ctx source init a st) @ fs"
    using Cons.IH by blast
  then have "progress (fold (pull_arch ctx source init) (a # archs) st) = progress st @ (es @ fs)"
    by (simp add: es)
  then show ?case by blast
qed



text \<open>Two packages share name and architecture; a package list holds at most one
  version for each name and architecture.\<close>

definition same_name_arch :: "package \<Rightarrow> package \<Rightarrow> bool" where
  "same_name_arch p q \<longleftrightarrow> pkg_Name p = pkg_Name q \<and> pkg_Architecture p = pkg_Architecture q"

definition one_version :: "package list \<Rightarrow> bool" where
  "one_version l \<longleftrightarrow>
     (\<forall>p\<in>set l. \<forall>q\<in>set l. same_name_arch p q \<longrightarrow> pkg_Version p = pkg_Version q)"

lemma Search_Nil_filter:
  "Search cmp l d am = [] \<longleftrightarrow>
   filter (\<lambda>p. MatchesDependency cmp p d \<and> pkg_Architecture p = Architecture d) l = []"
  by (cases am; cases "filter (\<lambda>p. MatchesDependency cmp p d \<and> pkg_Architecture p = Architecture d) l")
     (simp_all add: Search_def)

lemma Search_name_arch_Nil:
  assumes "Search cmp l \<lparr>Pkg = pkg_Name m, Architecture = pkg_Architecture m, Constraint = None\<rparr> am = []"
    and "p \<in> set l"
  shows "\<not> same_name_arch p m"
proof
  assume "same_name_arch p m"
  then have "MatchesDependency cmp p \<lparr>Pkg = pkg_Name m, Architecture = pkg_Architecture m, Constraint = None\<rparr>
      \<and> pkg_Architecture p = Architecture \<lparr>Pkg = pkg_Name m, Architecture = pkg_Architecture m, Constraint = None\<rparr>"
    by (simp add: same_name_arch_def MatchesDependency_def satisfies_def)
  with assms(2) have "filter (\<lambda>p. MatchesDependency cmp p \<lparr>Pkg = pkg_Name m, Architecture = pkg_Architecture m, Constraint = None\<rparr>
      \<and> pkg_Architecture p = Architecture \<lparr>Pkg = pkg_Name m, Architecture = pkg_Architecture m, Constraint = None\<rparr>) l \<noteq> []"
    by (auto simp: filter_empty_conv)
  with assms(1) show False by (simp add: Search_Nil_filter)
qed

lemma set_fold_Remove: "set (fold (\<lambda>p l. Remove l p) pS l) = set l - set pS"
  by (induction pS arbitrary: l) (auto simp: Remove_def)

lemma remove_same_packageList:
  "set (packageList (remove_same ctx m st)) \<subseteq> set (packageList st) \<and>
   (\<forall>p\<in>set (packageList (remove_same ctx m st)). \<not> same_name_arch p m)"
proof (induction ctx m st rule: remove_same.induct)
  case (1 ctx m st)
  let ?pS = "Search (CompareVersions ctx) (packageList st)
     \<lparr>Pkg = pkg_Name m, Architecture = pkg_Architecture m, Constraint = None\<rparr> (flag_all_matches ctx)"
  show ?case
  proof (cases "?pS = []")
    case True
    then have "remove_same ctx m st = st"
      by (subst remove_same.simps) (simp add: Let_def)
    with True show ?thesis using Search_name_arch_Nil by auto
  next
    case False
    then have eq: "remove_same ctx m st = remove_same ctx m (remove_found ?pS st)"
      by (subst remove_same.simps) (simp add: Let_def)
    have "set (packageList (remove_found ?pS st)) \<subseteq> set (packageList st)"
      by (auto simp: packageList_remove_found set_fold_Remove)
    with "1.IH" [OF refl False] show ?thesis unfolding eq by blast
  qed
qed

lemma fold_remove_same_packageList:
  "set (packageList (fold (remove_same ctx) rs st)) \<subseteq> set (packageList st) \<and>
   (\<forall>p\<in>set (packageList (fold (remove_same ctx) rs st)). \<forall>m\<in>set rs. \<not> same_name_arch p m)"
proof (induction rs arbitrary: st)
  case Nil
  show ?case by simp
next
  case (Cons r rs)
  let ?st1 = "remove_same ctx r st"
  have a: "set (packageList ?st1) \<subseteq> set (packageList st)"
    and b: "\<forall>p\<in>set (packageList ?st1). \<not> same_name_arch p r"
    using remove_same_packageList by blast+
  have c: "set (packageList (fold (remove_same ctx) rs ?st1)) \<subseteq> set (packageList ?st1)"
    and d: "\<forall>p\<in>set (packageList (fold (remove_same ctx) rs ?st1)). \<forall>m\<in>set rs. \<not> same_name_arch p m"
    using Cons.IH by blast+
  from a b c d show ?case by auto
qed

lemma packageList_fold_add_found:
  "packageList (fold add_found rs st) = fold (\<lambda>p l. Add l p) rs (packageList st)"
  by (induction rs arbitrary: st) (auto simp: add_found_def)

lemma set_fold_Add: "set (fold (\<lambda>p l. Add l p) rs l) = set l \<union> set rs"
  by (induction rs arbitrary: l) (auto simp: set_Add)

lemma closure_body_packageList:
  "set (packageList (closure_body ctx source arch i st)) =
     set (packageList (if flag_no_remove ctx then st
        else fold (remove_same ctx)
          (Search (CompareVersions ctx) (sourcePackageList st) (dependencies st ! i) (flag_all_matches ctx)) st))
     \<union> set (Search (CompareVersions ctx) (sourcePackageList st) (dependencies st ! i) (flag_all_matches ctx))"
proof -
  let ?rs = "Search (CompareVersions ctx) (sourcePackageList st) (dependencies st ! i) (flag_all_matches ctx)"
  show ?thesis
  proof (cases "?rs = []")
    case True
    then show ?thesis by (simp add: closure_body_unsatisfied)
  next
    case False
    then show ?thesis
      by (simp add: closure_body_def Let_def fold_verify_found_frame packageList_fold_add_found set_fold_Add)
  qed
qed

lemma Search_single: "length (Search cmp l d False) \<le> 1"
  by (cases "filter (\<lambda>p. MatchesDependency cmp p d \<and> pkg_Architecture p = Architecture d) l")
     (simp_all add: Search_def)

lemma short_list_unique: "length xs \<le> 1 \<Longrightarrow> p \<in> set xs \<Longrightarrow> q \<in> set xs \<Longrightarrow> p = q"
  by (cases xs) auto

lemma closure_body_no_deps:
  assumes "flag_no_deps ctx"
  shows "dependencies (closure_body ctx source arch i st) = dependencies st \<and>
         err (closure_body ctx source arch i st) = err st"
  using assms by (simp add: closure_body_def Let_def fold_add_found_frame fold_remove_same_frame)

lemma closure_body_packageList_subset:
  "set (packageList (closure_body ctx source arch i st)) \<subseteq>
     set (packageList st) \<union>
     set (Search (CompareVersions ctx) (sourcePackageList st) (dependencies st ! i) (flag_all_matches ctx))"
  using fold_remove_same_packageList [of ctx
      "Search (CompareVersions ctx) (sourcePackageList st) (dependencies st ! i) (flag_all_matches ctx)" st]
  unfolding closure_body_packageList by (cases "flag_no_remove ctx") auto

lemma closure_body_packageList_no_remove:
  "flag_no_remove ctx \<Longrightarrow>
   set (packageList (closure_body ctx source arch i st)) =
     set (packageList st) \<union>
     set (Search (CompareVersions ctx) (sourcePackageList st) (dependencies st ! i) (flag_all_matches ctx))"
  by (simp add: closure_body_packageList)

text \<open>The matches of a list of expressions in a package list, one search after the other.\<close>

definition matches :: "context \<Rightarrow> package list \<Rightarrow> Dependency list \<Rightarrow> package list" where
  "matches ctx spl ds =
     concat (map (\<lambda>d. Search (CompareVersions ctx) spl d (flag_all_matches ctx)) ds)"

lemma matches_Cons:
  "matches ctx spl (d # ds) = Search (CompareVersions ctx) spl d (flag_all_matches ctx) @ matches ctx spl ds"
  by (simp add: matches_def)

lemma closure_loop_no_deps:
  "flag_no_deps ctx \<Longrightarrow>
   dependencies (closure_loop ctx source arch i st) = dependencies st \<and>
   err (closure_loop ctx source arch i st) = err st \<and>
   added (progress (closure_loop ctx source arch i st))
     = added (progress st) @ matches ctx (sourcePackageList st) (drop i (dependencies st)) \<and>
   set (packageList (closure_loop ctx source arch i st))
     \<subseteq> set (packageList st) \<union> set (matches ctx (sourcePackageList st) (drop i (dependencies st))) \<and>
   (flag_no_remove ctx \<longrightarrow> set (packageList (closure_loop ctx source arch i st))
     = set (packageList st) \<union> set (matches ctx (sourcePackageList st) (drop i (dependencies st))))"
proof (induction ctx source arch i st rule: closure_loop.induct)
  case (1 ctx source arch i st)
  show ?case
  proof (cases "i < length (dependencies st)")
    case True
    define b where "b = closure_body ctx source arch i st"
    define rs where "rs = Search (CompareVersions ctx) (sourcePackageList st) (dependencies st ! i) (flag_all_matches ctx)"
    have unfold: "closure_loop ctx source arch i st = closure_loop ctx source arch (i + 1) b"
      using True unfolding b_def by (subst closure_loop.simps) simp
    have deps: "dependencies b = dependencies st" and er: "err b = err st"
      unfolding b_def using closure_body_no_deps [OF "1.prems"] by blast+
    have src: "sourcePackageList b = sourcePackageList st"
      unfolding b_def by (rule closure_body_source)
    have drop: "drop i (dependencies st) = dependencies st ! i # drop (i + 1) (dependencies st)"
      using True by (simp add: Cons_nth_drop_Suc)
    have m: "matches ctx (sourcePackageList st) (drop i (dependencies st))
        = rs @ matches ctx (sourcePackageList st) (drop (i + 1) (dependencies st))"
      unfolding rs_def by (subst drop) (rule matches_Cons)
    obtain es where "progress b = progress st @ es" and "added es = rs"
      unfolding b_def rs_def using closure_body_progress by blast
    then have ad: "added (progress b) = added (progress st) @ rs" by simp
    have sub: "set (packageList b) \<subseteq> set (packageList st) \<union> set rs"
      unfolding b_def rs_def by (rule closure_body_packageList_subset)
    have eq: "flag_no_remove ctx \<Longrightarrow> set (packageList b) = set (packageList st) \<union> set rs"
      unfolding b_def rs_def by (rule closure_body_packageList_no_remove)
    have IH: "dependencies (closure_loop ctx source arch (i + 1) b) = dependencies st"
      "err (closure_loop ctx source arch (i + 1) b) = err st"
      "added (progress (closure_loop ctx source arch (i + 1) b))
         = added (progress b) @ matches ctx (sourcePackageList st) (drop (i + 1) (dependencies st))"
      "set (packageList (closure_loop ctx source arch (i + 1) b))
         \<subseteq> set (packageList b) \<union> set (matches ctx (sourcePackageList st) (drop (i + 1) (dependencies st)))"
      "flag_no_remove ctx \<Longrightarrow> set (packageList (closure_loop ctx source arch (i + 1) b))
         = set (packageList b) \<union> set (matches ctx (sourcePackageList st) (drop (i + 1) (dependencies st)))"
      using "1.IH" [OF True "1.prems"] unfolding b_def [symmetric] deps er src by blast+
    have c1: "dependencies (closure_loop ctx source arch i st) = dependencies st"
      by (simp only: unfold IH(1))
    have c2: "err (closure_loop ctx source arch i st) = err st"
      by (simp only: unfold IH(2))
    have c3: "added (progress (closure_loop ctx source arch i st))
       = added (progress st) @ matches ctx (sourcePackageList st) (drop i (dependencies st))"
      by (simp only: unfold IH(3) ad m append_assoc)
    have c4: "set (packageList (closure_loop ctx source arch i st))
       \<subseteq> set (packageList st) \<union> set (matches ctx (sourcePackageList st) (drop i (dependencies st)))"
      unfolding unfold m using IH(4) sub by auto
    have c5: "flag_no_remove ctx \<Longrightarrow> set (packageList (closure_loop ctx source arch i st))
       = set (packageList st) \<union> set (matches ctx (sourcePackageList st) (drop i (dependencies st)))"
      unfolding unfold m using IH(5) eq by auto
    from c1 c2 c3 c4 c5 show ?thesis by blast
  next
    case False
    then have "closure_loop ctx source arch i st = st" by (subst closure_loop.simps) simp
    with False show ?thesis by (simp add: matches_def)
  qed
qed

lemma err_fold_verify_found:
  assumes "rs \<noteq> []"
  shows "err (snd (fold (verify_found ctx arch) rs acc)) =
     snd (VerifyDependencies (CompareVersions ctx) (fold (\<lambda>p l. Add l p) rs (fst acc)) [arch]
            (packageList (snd acc)))"
proof -
  obtain xs x where rs: "rs = xs @ [x]" using assms by (cases rs rule: rev_cases) auto
  define acc1 where "acc1 = fold (verify_found ctx arch) xs acc"
  have f: "fst acc1 = fold (\<lambda>p l. Add l p) xs (fst acc)"
    and p: "packageList (snd acc1) = packageList (snd acc)"
    unfolding acc1_def using fold_verify_found_frame [of ctx arch xs acc] by blast+
  have "err (snd (verify_found ctx arch x acc1)) =
     snd (VerifyDependencies (CompareVersions ctx) (Add (fst acc1) x) [arch] (packageList (snd acc1)))"
    by (simp add: verify_found_def Let_def split: option.splits)
  then show ?thesis by (simp add: rs acc1_def [symmetric] f p)
qed

lemma closure_body_err:
  "err (closure_body ctx source arch i st) =
     (let rs = Search (CompareVersions ctx) (sourcePackageList st) (dependencies st ! i) (flag_all_matches ctx)
      in if rs = [] \<or> flag_no_deps ctx then err st
         else snd (VerifyDependencies (CompareVersions ctx) (fold (\<lambda>p l. Add l p) rs []) [arch]
                (packageList (closure_body ctx source arch i st))))"
proof -
  define rs where "rs = Search (CompareVersions ctx) (sourcePackageList st) (dependencies st ! i) (flag_all_matches ctx)"
  define st2 where "st2 = fold add_found rs (if \<not> flag_no_remove ctx then fold (remove_same ctx) rs st else st)"
  have e2: "err st2 = err st"
    unfolding st2_def by (simp add: fold_add_found_frame fold_remove_same_frame)
  show ?thesis
  proof (cases "rs = [] \<or> flag_no_deps ctx")
    case True
    then have "err (closure_body ctx source arch i st) = err st"
      unfolding rs_def using closure_body_no_deps [of ctx source arch i st]
      by (auto simp: closure_body_unsatisfied)
    with True show ?thesis by (simp add: rs_def [symmetric])
  next
    case False
    then have body: "closure_body ctx source arch i st = snd (fold (verify_found ctx arch) rs ([], st2))"
      by (simp add: closure_body_def Let_def rs_def [symmetric] st2_def)
    have pl: "packageList (closure_body ctx source arch i st) = packageList st2"
      unfolding body using fold_verify_found_frame [of ctx arch rs "([], st2)"] by simp
    from False have "rs \<noteq> []" by simp
    then have "err (closure_body ctx source arch i st) =
       snd (VerifyDependencies (CompareVersions ctx) (fold (\<lambda>p l. Add l p) rs []) [arch] (packageList st2))"
      unfolding body by (simp add: err_fold_verify_found)
    with False show ?thesis by (simp add: rs_def [symmetric] pl)
  qed
qed

text \<open>The events that only the loop of lines 90 to 158 writes: a search that failed, a
  removal, an addition, a verification error.\<close>

definition closure_event :: "event \<Rightarrow> bool" where
  "closure_event e =
     (case e of CantBeSatisfied _ _ \<Rightarrow> True | Removed _ \<Rightarrow> True | Added _ \<Rightarrow> True
      | VerifyError _ _ \<Rightarrow> True | _ \<Rightarrow> False)"

lemma context_Progress_same: "ctx\<lparr>Progress := Progress ctx @ []\<rparr> = ctx"
  by simp

lemma load_snapshots_fields:
  "fst (load_snapshots ctx args) = ctx\<lparr>Progress := Progress (fst (load_snapshots ctx args))\<rparr>"
  unfolding load_snapshots_def Let_def
  by (simp split: sum.splits option.splits)

lemma load_snapshots_Progress:
  "\<exists>es. Progress (fst (load_snapshots ctx args)) = Progress ctx @ es \<and> filter closure_event es = []"
  unfolding load_snapshots_def Let_def
  by (simp add: closure_event_def split: sum.splits option.splits)

lemma load_snapshots_context:
  "\<exists>es. fst (load_snapshots ctx args) = ctx\<lparr>Progress := Progress ctx @ es\<rparr> \<and>
        filter closure_event es = []"
proof -
  obtain es where es: "Progress (fst (load_snapshots ctx args)) = Progress ctx @ es"
    "filter closure_event es = []"
    using load_snapshots_Progress by blast
  have "fst (load_snapshots ctx args) = ctx\<lparr>Progress := Progress ctx @ es\<rparr>"
    by (subst load_snapshots_fields) (simp only: es)
  with es(2) show ?thesis by blast
qed

lemma parse_arguments_fails:
  "\<exists>a\<in>set xs. isl (parse a) \<Longrightarrow> \<exists>e. parse_arguments parse xs = Inl (UnableToParseArgument e)"
proof (induction xs)
  case Nil
  then show ?case by simp
next
  case (Cons x xs)
  show ?case
  proof (cases "parse x")
    case (Inl e)
    then show ?thesis by simp
  next
    case (Inr d)
    with Cons.prems have "\<exists>a\<in>set xs. isl (parse a)" by auto
    with Cons.IH obtain e where "parse_arguments parse xs = Inl (UnableToParseArgument e)" by blast
    with Inr show ?thesis by simp
  qed
qed

lemma aptlySnapshotPull_pulls:
  assumes "4 \<le> length args"
    and "snd (load_snapshots ctx args) = Inr (snapshot, source, pl, spl)"
    and "calculate_architectures (fst (load_snapshots ctx args)) pl \<noteq> []"
    and "parse_arguments (ParseDependency ctx) (drop 3 args) = Inr init"
  shows "aptlySnapshotPull ctx args =
     create_snapshot (fst (load_snapshots ctx args)) args snapshot source
       (perform_pull (fst (load_snapshots ctx args)) source init
          (calculate_architectures (fst (load_snapshots ctx args)) pl)
          (initial_state (fst (load_snapshots ctx args)) pl spl))"
proof -
  obtain ctx1 where l: "load_snapshots ctx args = (ctx1, Inr (snapshot, source, pl, spl))"
    using assms(2) by (cases "load_snapshots ctx args") auto
  obtain es where "ctx1 = ctx\<lparr>Progress := Progress ctx @ es\<rparr>"
    using load_snapshots_context [of ctx args] by (auto simp: l)
  then have p: "ParseDependency ctx1 = ParseDependency ctx" by simp
  show ?thesis
    using assms(1,3,4) by (simp add: aptlySnapshotPull_def l p Let_def)
qed

section \<open>Example data\<close>

text \<open>Concrete inputs at which the theorems below are instantiated: a version comparison
  (the order of the strings), a parser that accepts bare package names, a context with
  the default flags and the architecture \<open>amd64\<close>, and a few packages.\<close>

definition example_cmp :: "string \<Rightarrow> string \<Rightarrow> int" where
  "example_cmp v w = (if v = w then 0 else if v < w then - 1 else 1)"

definition example_parse :: "string \<Rightarrow> error + Dependency" where
  "example_parse s =
     (if CHR ''('' \<in> set s then Inl (MalformedDependency s)
      else Inr \<lparr>Pkg = s, Architecture = [], Constraint = None\<rparr>)"

definition example_context :: "Snapshot list \<Rightarrow> context" where
  "example_context coll =
     \<lparr>flag_dry_run = False, flag_no_deps = False, flag_no_remove = False,
      flag_all_matches = False, ArchitecturesList = [''amd64''], SnapshotCollection = coll,
      Progress = [], LoadComplete = (\<lambda>s. None), NewPackageListFromRefList = Inr,
      ParseDependency = example_parse, CompareVersions = example_cmp\<rparr>"

definition example_snapshot :: "string \<Rightarrow> package list \<Rightarrow> Snapshot" where
  "example_snapshot n l = \<lparr>Name = n, RefList = l, SourceSnapshots = [], Description = []\<rparr>"

definition example_dependency :: "string \<Rightarrow> Dependency" where
  "example_dependency n = \<lparr>Pkg = n, Architecture = [], Constraint = None\<rparr>"

definition pkgA1 :: package where
  "pkgA1 = \<lparr>pkg_Name = ''pkgA'', pkg_Version = ''1.0'', pkg_Architecture = ''amd64'',
            pkg_Requires = []\<rparr>"

definition pkgA2 :: package where
  "pkgA2 = \<lparr>pkg_Name = ''pkgA'', pkg_Version = ''2.0'', pkg_Architecture = ''amd64'',
            pkg_Requires = [Requires \<lparr>Pkg = ''pkgB'', Architecture = [],
                                      Constraint = Some (VersionGreaterOrEqual, ''1.0'')\<rparr>]\<rparr>"

definition pkgB :: package where
  "pkgB = \<lparr>pkg_Name = ''pkgB'', pkg_Version = ''1.5'', pkg_Architecture = ''amd64'',
           pkg_Requires = []\<rparr>"

definition pkgC :: package where
  "pkgC = \<lparr>pkg_Name = ''pkgC'', pkg_Version = ''1.0'', pkg_Architecture = ''amd64'',
           pkg_Requires = [Malformed ''pkgB (1.0''] \<rparr>"

definition pkgD :: package where
  "pkgD = \<lparr>pkg_Name = ''pkgD'', pkg_Version = ''1.0'', pkg_Architecture = ''amd64'',
           pkg_Requires = [Requires (example_dependency ''pkgE''),
                           Requires (example_dependency ''pkgF'')]\<rparr>"

section \<open>Auxiliary notions and lemmas for the claims\<close>

text \<open>The number \<open>D\<close> of distinct pairs of name and architecture in a package set, in
  the words of the specification's termination bound.\<close>

definition distinct_name_arch :: "package list \<Rightarrow> nat" where
  "distinct_name_arch l = length (remdups (map (\<lambda>p. (pkg_Name p, pkg_Architecture p)) l))"

lemma processed_unsatisfied:
  "processed ctx source spl evs d \<Longrightarrow> Search (CompareVersions ctx) spl d (flag_all_matches ctx) = []
   \<Longrightarrow> CantBeSatisfied d source \<in> set evs"
  by (simp add: processed_def)

lemma processed_found:
  "processed ctx source spl evs d \<Longrightarrow> Search (CompareVersions ctx) spl d (flag_all_matches ctx) = m # ms
   \<Longrightarrow> Added m \<in> set evs"
  by (simp add: processed_def)

text \<open>The packages of a list that share name and architecture with \<open>m\<close> all have one
  version; and the relation between the state before and after a step of the pull that
  keeps this: what held before holds after, and it holds after for every package the
  step reports as added.\<close>

definition one_version_of :: "package \<Rightarrow> package list \<Rightarrow> bool" where
  "one_version_of m l \<longleftrightarrow>
     (\<forall>p\<in>set l. \<forall>q\<in>set l. same_name_arch p m \<and> same_name_arch q m \<longrightarrow> pkg_Version p = pkg_Version q)"

definition keeps_one_version :: "package \<Rightarrow> pull_state \<Rightarrow> pull_state \<Rightarrow> bool" where
  "keeps_one_version m st st' \<longleftrightarrow>
     (one_version_of m (packageList st) \<longrightarrow> one_version_of m (packageList st')) \<and>
     (\<exists>es. progress st' = progress st @ es \<and>
           (m \<in> set (added es) \<longrightarrow> one_version_of m (packageList st')))"

lemma keeps_one_version_refl: "keeps_one_version m st st"
  by (simp add: keeps_one_version_def)

lemma keeps_one_version_trans:
  assumes "keeps_one_version m st st'" and "keeps_one_version m st' st''"
  shows "keeps_one_version m st st''"
proof -
  from assms(1) obtain es1 where 1: "one_version_of m (packageList st) \<longrightarrow> one_version_of m (packageList st')"
    "progress st' = progress st @ es1" "m \<in> set (added es1) \<longrightarrow> one_version_of m (packageList st')"
    unfolding keeps_one_version_def by blast
  from assms(2) obtain es2 where 2: "one_version_of m (packageList st') \<longrightarrow> one_version_of m (packageList st'')"
    "progress st'' = progress st' @ es2" "m \<in> set (added es2) \<longrightarrow> one_version_of m (packageList st'')"
    unfolding keeps_one_version_def by blast
  have a: "one_version_of m (packageList st) \<longrightarrow> one_version_of m (packageList st'')"
    using 1(1) 2(1) by blast
  have b: "progress st'' = progress st @ (es1 @ es2)" by (simp add: 1(2) 2(2))
  have c: "m \<in> set (added (es1 @ es2)) \<longrightarrow> one_version_of m (packageList st'')"
    using 1(3) 2(1) 2(3) by auto
  from a b c show ?thesis unfolding keeps_one_version_def by blast
qed

lemma same_name_arch_trans: "same_name_arch p m \<Longrightarrow> same_name_arch q m \<Longrightarrow> same_name_arch p q"
  by (simp add: same_name_arch_def)

lemma one_version_of_replace:
  assumes sub: "set l1 \<subseteq> set l"
    and clear: "\<forall>p\<in>set l1. \<forall>r\<in>set rs. \<not> same_name_arch p r"
    and short: "length rs \<le> 1"
    and set: "set l2 = set l1 \<union> set rs"
    and m: "one_version_of m l \<or> m \<in> set rs"
  shows "one_version_of m l2"
  unfolding one_version_of_def
proof (intro ballI impI)
  fix p q
  assume p: "p \<in> set l2" and q: "q \<in> set l2" and s: "same_name_arch p m \<and> same_name_arch q m"
  then have pq: "same_name_arch p q" and qp: "same_name_arch q p"
    by (auto intro: same_name_arch_trans)
  consider "p \<in> set l1" "q \<in> set l1" | "p \<in> set l1" "q \<in> set rs"
    | "p \<in> set rs" "q \<in> set l1" | "p \<in> set rs" "q \<in> set rs"
    using p q unfolding set by blast
  then show "pkg_Version p = pkg_Version q"
  proof cases
    case 1
    from m show ?thesis
    proof
      assume "one_version_of m l"
      moreover have "p \<in> set l" "q \<in> set l" using 1 sub by blast+
      ultimately show ?thesis using s unfolding one_version_of_def by blast
    next
      assume "m \<in> set rs"
      with clear 1(1) s show ?thesis by blast
    qed
  next
    case 2
    with clear pq show ?thesis by blast
  next
    case 3
    with clear qp show ?thesis by blast
  next
    case 4
    with short have "p = q" by (rule short_list_unique)
    then show ?thesis by simp
  qed
qed

lemma closure_body_keeps_one_version:
  assumes "\<not> flag_no_remove ctx" and "\<not> flag_all_matches ctx"
  shows "keeps_one_version m st (closure_body ctx source arch i st)"
proof -
  define rs where "rs = Search (CompareVersions ctx) (sourcePackageList st) (dependencies st ! i) (flag_all_matches ctx)"
  define l1 where "l1 = packageList (fold (remove_same ctx) rs st)"
  define b where "b = closure_body ctx source arch i st"
  have set: "set (packageList b) = set l1 \<union> set rs"
    using assms(1) unfolding l1_def rs_def b_def by (simp add: closure_body_packageList)
  have sub: "set l1 \<subseteq> set (packageList st)"
    and clear: "\<forall>p\<in>set l1. \<forall>r\<in>set rs. \<not> same_name_arch p r"
    unfolding l1_def using fold_remove_same_packageList [of ctx rs st] by blast+
  have "rs = Search (CompareVersions ctx) (sourcePackageList st) (dependencies st ! i) False"
    using assms(2) by (simp add: rs_def)
  then have short: "length rs \<le> 1" by (simp only: Search_single)
  obtain es where es: "progress b = progress st @ es" "added es = rs"
    unfolding b_def rs_def using closure_body_progress by blast
  have 1: "one_version_of m (packageList st) \<longrightarrow> one_version_of m (packageList b)"
    using one_version_of_replace [OF sub clear short set] by blast
  have 2: "m \<in> set (added es) \<longrightarrow> one_version_of m (packageList b)"
    unfolding es(2) using one_version_of_replace [OF sub clear short set] by blast
  from 1 2 es(1) show ?thesis unfolding keeps_one_version_def b_def by blast
qed

lemma closure_loop_keeps_one_version:
  "\<not> flag_no_remove ctx \<Longrightarrow> \<not> flag_all_matches ctx
   \<Longrightarrow> keeps_one_version m st (closure_loop ctx source arch i st)"
proof (induction ctx source arch i st rule: closure_loop.induct)
  case (1 ctx source arch i st)
  show ?case
  proof (cases "i < length (dependencies st)")
    case True
    have unfold: "closure_loop ctx source arch i st
        = closure_loop ctx source arch (i + 1) (closure_body ctx source arch i st)"
      using True by (subst closure_loop.simps) simp
    have "keeps_one_version m st (closure_body ctx source arch i st)"
      using "1.prems" by (rule closure_body_keeps_one_version)
    then show ?thesis unfolding unfold
      using "1.IH" [OF True "1.prems"] by (rule keeps_one_version_trans)
  next
    case False
    then have "closure_loop ctx source arch i st = st" by (subst closure_loop.simps) simp
    then show ?thesis by (simp add: keeps_one_version_refl)
  qed
qed

lemma pull_arch_keeps_one_version:
  assumes "\<not> flag_no_remove ctx" and "\<not> flag_all_matches ctx"
  shows "keeps_one_version m st (pull_arch ctx source init arch st)"
  using closure_loop_keeps_one_version [OF assms, of m
      "st\<lparr>dependencies := map (\<lambda>d. d\<lparr>Architecture := arch\<rparr>) init\<rparr>" source arch 0]
  by (simp add: pull_arch_def keeps_one_version_def)

lemma perform_pull_keeps_one_version:
  assumes "\<not> flag_no_remove ctx" and "\<not> flag_all_matches ctx"
  shows "keeps_one_version m st (perform_pull ctx source init archs st)"
  unfolding perform_pull_def
proof (induction archs arbitrary: st)
  case Nil
  show ?case by (simp add: keeps_one_version_refl)
next
  case (Cons a archs)
  have "keeps_one_version m st (pull_arch ctx source init a st)"
    using assms by (rule pull_arch_keeps_one_version)
  moreover have "keeps_one_version m (pull_arch ctx source init a st)
      (fold (pull_arch ctx source init) archs (pull_arch ctx source init a st))"
    by (rule Cons.IH)
  ultimately show ?case by (simp add: keeps_one_version_trans)
qed

lemma one_version_iff: "one_version l \<longleftrightarrow> (\<forall>m. one_version_of m l)"
proof
  assume "one_version l"
  then show "\<forall>m. one_version_of m l"
    unfolding one_version_def one_version_of_def by (blast intro: same_name_arch_trans)
next
  assume a: "\<forall>m. one_version_of m l"
  show "one_version l"
    unfolding one_version_def
  proof (intro ballI impI)
    fix p q assume "p \<in> set l" "q \<in> set l" "same_name_arch p q"
    moreover have "same_name_arch q q" by (simp add: same_name_arch_def)
    moreover have "one_version_of q l" using a by blast
    ultimately show "pkg_Version p = pkg_Version q" unfolding one_version_of_def by blast
  qed
qed

lemma load_snapshots_same:
  assumes "load_snapshots ctx args = (ctx1, r)"
  shows "flag_dry_run ctx1 = flag_dry_run ctx" and "SnapshotCollection ctx1 = SnapshotCollection ctx"
    and "ParseDependency ctx1 = ParseDependency ctx" and "ArchitecturesList ctx1 = ArchitecturesList ctx"
    and "\<exists>es. Progress ctx1 = Progress ctx @ es \<and> filter closure_event es = []"
proof -
  obtain es where es: "fst (load_snapshots ctx args) = ctx\<lparr>Progress := Progress ctx @ es\<rparr>"
    "filter closure_event es = []"
    using load_snapshots_context by blast
  then have c: "ctx1 = ctx\<lparr>Progress := Progress ctx @ es\<rparr>" by (simp add: assms)
  show "flag_dry_run ctx1 = flag_dry_run ctx" "SnapshotCollection ctx1 = SnapshotCollection ctx"
    "ParseDependency ctx1 = ParseDependency ctx" "ArchitecturesList ctx1 = ArchitecturesList ctx"
    by (simp_all add: c)
  have "Progress ctx1 = Progress ctx @ es" by (simp add: c)
  with es(2) show "\<exists>es. Progress ctx1 = Progress ctx @ es \<and> filter closure_event es = []" by blast
qed

lemma aptlySnapshotPull_closure:
  assumes "4 \<le> length args"
    and "load_snapshots ctx args = (ctx1, Inr (snapshot, source, pl, spl))"
    and "calculate_architectures ctx1 pl \<noteq> []"
    and "parse_arguments (ParseDependency ctx) (drop 3 args) = Inr init"
  shows "aptlySnapshotPull ctx args =
     create_snapshot ctx1 args snapshot source
       (perform_pull ctx1 source init (calculate_architectures ctx1 pl) (initial_state ctx1 pl spl))"
  using aptlySnapshotPull_pulls [of args ctx snapshot source pl spl init] assms
  by simp

text \<open>The state after the loop over the architectures, in a run of the command that got
  that far: \<open>ctx1\<close> is the context after loading, \<open>pl\<close> and \<open>spl\<close> the two package lists.\<close>

definition pulled :: "context \<Rightarrow> Snapshot \<Rightarrow> Dependency list \<Rightarrow> package list \<Rightarrow> package list \<Rightarrow> pull_state" where
  "pulled ctx1 source initialDependencies pl spl =
     perform_pull ctx1 source initialDependencies (calculate_architectures ctx1 pl)
       (initial_state ctx1 pl spl)"

lemma aptlySnapshotPull_pulled:
  assumes "4 \<le> length args"
    and "load_snapshots ctx args = (ctx1, Inr (snapshot, source, pl, spl))"
    and "calculate_architectures ctx1 pl \<noteq> []"
    and "parse_arguments (ParseDependency ctx) (drop 3 args) = Inr init"
  shows "aptlySnapshotPull ctx args =
     create_snapshot ctx1 args snapshot source (pulled ctx1 source init pl spl)"
  unfolding pulled_def using assms by (rule aptlySnapshotPull_closure)

text \<open>A snapshot collection for the examples: an empty destination \<open>dst\<close> and a source \<open>src\<close>
  with \<open>pkgB\<close> and \<open>pkgC\<close>, the package with malformed metadata.\<close>

definition example_collection :: "Snapshot list" where
  "example_collection = [example_snapshot ''dst'' [], example_snapshot ''src'' [pkgB, pkgC]]"

lemma example_load:
  assumes "SnapshotCollection ctx = example_collection" and "LoadComplete ctx = (\<lambda>s. None)"
    and "NewPackageListFromRefList ctx = Inr" and "args ! 0 = ''dst''" and "args ! 1 = ''src''"
  shows "load_snapshots ctx args =
     (ctx\<lparr>Progress := Progress ctx @
         [PullBanner (example_snapshot ''dst'' []) (example_snapshot ''src'' [pkgB, pkgC]) (args ! 2),
          LoadingPackages 2, BuildingIndexes]\<rparr>,
      Inr (example_snapshot ''dst'' [], example_snapshot ''src'' [pkgB, pkgC], [], [pkgB, pkgC]))"
  using assms
  by (simp add: load_snapshots_def example_collection_def ByName_def example_snapshot_def Let_def)

lemma source_not_in_Architectures: "''source'' \<notin> set (Architectures pl False)"
  by (auto simp: Architectures_def)

lemma Search_name_arch:
  assumes "p \<in> set (Search cmp l \<lparr>Pkg = pkg_Name m, Architecture = pkg_Architecture m, Constraint = None\<rparr> am)"
  shows "same_name_arch p m"
proof -
  let ?d = "\<lparr>Pkg = pkg_Name m, Architecture = pkg_Architecture m, Constraint = None\<rparr>"
  let ?ms = "filter (\<lambda>p. MatchesDependency cmp p ?d \<and> pkg_Architecture p = Architecture ?d) l"
  have "set (Search cmp l ?d am) \<subseteq> set ?ms"
  proof (cases am)
    case True
    then show ?thesis by (simp add: Search_def)
  next
    case False
    show ?thesis
    proof (cases ?ms)
      case Nil
      with False show ?thesis by (simp add: Search_def)
    next
      case (Cons x xs)
      have "highest cmp x xs \<in> set (x # xs)" by (rule highest_mem)
      with False Cons show ?thesis by (simp add: Search_def)
    qed
  qed
  with assms have "p \<in> set ?ms" by blast
  then show ?thesis by (simp add: same_name_arch_def MatchesDependency_def)
qed

lemma remove_same_exact:
  "set (packageList (remove_same ctx m st)) = {p \<in> set (packageList st). \<not> same_name_arch p m}"
proof (induction ctx m st rule: remove_same.induct)
  case (1 ctx m st)
  define pS where "pS = Search (CompareVersions ctx) (packageList st)
     \<lparr>Pkg = pkg_Name m, Architecture = pkg_Architecture m, Constraint = None\<rparr> (flag_all_matches ctx)"
  show ?case
  proof (cases "pS = []")
    case True
    then have "remove_same ctx m st = st"
      unfolding pS_def by (subst remove_same.simps) (simp add: Let_def)
    moreover have "\<forall>p\<in>set (packageList st). \<not> same_name_arch p m"
      using True Search_name_arch_Nil unfolding pS_def by blast
    ultimately show ?thesis by auto
  next
    case False
    then have eq: "remove_same ctx m st = remove_same ctx m (remove_found pS st)"
      unfolding pS_def by (subst remove_same.simps) (simp add: Let_def)
    have same: "\<forall>p\<in>set pS. same_name_arch p m"
      unfolding pS_def using Search_name_arch by blast
    have "set (packageList (remove_found pS st)) = set (packageList st) - set pS"
      by (simp add: packageList_remove_found set_fold_Remove)
    moreover have "set (packageList (remove_same ctx m (remove_found pS st)))
        = {p \<in> set (packageList (remove_found pS st)). \<not> same_name_arch p m}"
      using "1.IH" [OF pS_def [symmetric, THEN sym] False] by simp
    ultimately show ?thesis unfolding eq using same by auto
  qed
qed

lemma fold_remove_same_exact:
  "set (packageList (fold (remove_same ctx) rs st))
     = {p \<in> set (packageList st). \<forall>m\<in>set rs. \<not> same_name_arch p m}"
proof (induction rs arbitrary: st)
  case Nil
  show ?case by simp
next
  case (Cons r rs)
  have "set (packageList (fold (remove_same ctx) rs (remove_same ctx r st)))
      = {p \<in> set (packageList (remove_same ctx r st)). \<forall>m\<in>set rs. \<not> same_name_arch p m}"
    by (rule Cons.IH)
  then show ?case by (auto simp: remove_same_exact)
qed

lemma closure_body_replaces_in_place:
  assumes "\<not> flag_no_remove ctx"
  shows "set (packageList (closure_body ctx source arch i st)) =
     {p \<in> set (packageList st).
        \<forall>m\<in>set (Search (CompareVersions ctx) (sourcePackageList st) (dependencies st ! i)
                    (flag_all_matches ctx)). \<not> same_name_arch p m} \<union>
     set (Search (CompareVersions ctx) (sourcePackageList st) (dependencies st ! i)
            (flag_all_matches ctx))"
  using assms by (simp add: closure_body_packageList fold_remove_same_exact)

text \<open>A package \<open>p\<close> is kept in the list \<open>l\<close>: it is in \<open>l\<close>, or, when \<^verbatim>\<open>no-remove\<close> is unset,
  \<open>l\<close> holds a package of the same name and architecture that the events \<open>es\<close> report as
  added, its replacement.\<close>

definition kept :: "context \<Rightarrow> event list \<Rightarrow> package list \<Rightarrow> package \<Rightarrow> bool" where
  "kept ctx es l p \<longleftrightarrow>
     p \<in> set l \<or>
     (\<not> flag_no_remove ctx \<and> (\<exists>q\<in>set l. q \<in> set (added es) \<and> same_name_arch q p))"

text \<open>The relation between the state before and after a step of the pull: every package
  that the destination held, and every package that the step reports as added, is kept.\<close>

definition replaces :: "context \<Rightarrow> pull_state \<Rightarrow> pull_state \<Rightarrow> bool" where
  "replaces ctx st st' \<longleftrightarrow>
     (\<exists>es. progress st' = progress st @ es \<and>
        (\<forall>p\<in>set (packageList st) \<union> set (added es). kept ctx es (packageList st') p))"

lemma replaces_refl: "replaces ctx st st"
  by (auto simp: replaces_def kept_def)

lemma same_name_arch_chain: "same_name_arch r q \<Longrightarrow> same_name_arch q p \<Longrightarrow> same_name_arch r p"
  by (simp add: same_name_arch_def)

lemma kept_step:
  assumes k1: "kept ctx es1 l1 p"
    and k2: "\<forall>q\<in>set l1. kept ctx es2 l2 q"
  shows "kept ctx (es1 @ es2) l2 p"
proof (cases "p \<in> set l1")
  case True
  with k2 have "kept ctx es2 l2 p" by blast
  then show ?thesis by (auto simp: kept_def)
next
  case False
  with k1 obtain q where nr: "\<not> flag_no_remove ctx" and q: "q \<in> set l1" "q \<in> set (added es1)" "same_name_arch q p"
    unfolding kept_def by blast
  from k2 q(1) have "kept ctx es2 l2 q" by blast
  then show ?thesis
  proof (unfold kept_def, elim disjE conjE bexE)
    assume "q \<in> set l2"
    with nr q show "p \<in> set l2 \<or> (\<not> flag_no_remove ctx \<and>
        (\<exists>q\<in>set l2. q \<in> set (added (es1 @ es2)) \<and> same_name_arch q p))"
      by auto
  next
    fix r assume "r \<in> set l2" "r \<in> set (added es2)" "same_name_arch r q"
    with nr q(3) show "p \<in> set l2 \<or> (\<not> flag_no_remove ctx \<and>
        (\<exists>q\<in>set l2. q \<in> set (added (es1 @ es2)) \<and> same_name_arch q p))"
      by (auto intro: same_name_arch_chain)
  qed
qed

lemma kept_later: "kept ctx es2 l p \<Longrightarrow> kept ctx (es1 @ es2) l p"
  by (auto simp: kept_def)

lemma replaces_trans:
  assumes "replaces ctx st st'" and "replaces ctx st' st''"
  shows "replaces ctx st st''"
proof -
  from assms(1) obtain es1 where 1: "progress st' = progress st @ es1"
    "\<forall>p\<in>set (packageList st) \<union> set (added es1). kept ctx es1 (packageList st') p"
    unfolding replaces_def by blast
  from assms(2) obtain es2 where 2: "progress st'' = progress st' @ es2"
    "\<forall>p\<in>set (packageList st') \<union> set (added es2). kept ctx es2 (packageList st'') p"
    unfolding replaces_def by blast
  have a: "progress st'' = progress st @ (es1 @ es2)" by (simp add: 1(1) 2(1))
  have b: "\<forall>p\<in>set (packageList st) \<union> set (added (es1 @ es2)). kept ctx (es1 @ es2) (packageList st'') p"
  proof
    fix p assume "p \<in> set (packageList st) \<union> set (added (es1 @ es2))"
    then consider "p \<in> set (packageList st) \<union> set (added es1)" | "p \<in> set (added es2)" by auto
    then show "kept ctx (es1 @ es2) (packageList st'') p"
    proof cases
      case 1
      with \<open>\<forall>p\<in>set (packageList st) \<union> set (added es1). kept ctx es1 (packageList st') p\<close>
      have "kept ctx es1 (packageList st') p" by blast
      moreover have "\<forall>q\<in>set (packageList st'). kept ctx es2 (packageList st'') q"
        using 2(2) by blast
      ultimately show ?thesis by (rule kept_step)
    next
      case 2
      with \<open>\<forall>p\<in>set (packageList st') \<union> set (added es2). kept ctx es2 (packageList st'') p\<close>
      have "kept ctx es2 (packageList st'') p" by blast
      then show ?thesis by (rule kept_later)
    qed
  qed
  from a b show ?thesis unfolding replaces_def by blast
qed

lemma same_name_arch_sym: "same_name_arch p q \<Longrightarrow> same_name_arch q p"
  by (simp add: same_name_arch_def)

lemma closure_body_replaces: "replaces ctx st (closure_body ctx source arch i st)"
proof -
  define rs where "rs = Search (CompareVersions ctx) (sourcePackageList st) (dependencies st ! i) (flag_all_matches ctx)"
  define b where "b = closure_body ctx source arch i st"
  obtain es where es: "progress b = progress st @ es" "added es = rs"
    unfolding b_def rs_def using closure_body_progress by blast
  have "\<forall>p\<in>set (packageList st) \<union> set (added es). kept ctx es (packageList b) p"
  proof (cases "flag_no_remove ctx")
    case True
    then have "set (packageList b) = set (packageList st) \<union> set rs"
      unfolding b_def rs_def by (rule closure_body_packageList_no_remove)
    then show ?thesis by (auto simp: kept_def es(2))
  next
    case False
    then have s: "set (packageList b) =
        {p \<in> set (packageList st). \<forall>m\<in>set rs. \<not> same_name_arch p m} \<union> set rs"
      unfolding b_def rs_def by (rule closure_body_replaces_in_place)
    show ?thesis
    proof
      fix p assume "p \<in> set (packageList st) \<union> set (added es)"
      then consider "p \<in> set rs" | "p \<in> set (packageList st)" "\<forall>m\<in>set rs. \<not> same_name_arch p m"
        | m where "m \<in> set rs" "same_name_arch p m"
        unfolding es(2) by blast
      then show "kept ctx es (packageList b) p"
      proof cases
        case 1
        then show ?thesis by (simp add: kept_def s)
      next
        case 2
        then show ?thesis by (simp add: kept_def s)
      next
        case 3
        then have "m \<in> set (packageList b)" "m \<in> set (added es)" "same_name_arch m p"
          by (simp_all add: s es(2) same_name_arch_sym)
        with False show ?thesis unfolding kept_def by blast
      qed
    qed
  qed
  with es(1) show ?thesis unfolding replaces_def b_def by blast
qed

lemma closure_loop_replaces: "replaces ctx st (closure_loop ctx source arch i st)"
proof (induction ctx source arch i st rule: closure_loop.induct)
  case (1 ctx source arch i st)
  show ?case
  proof (cases "i < length (dependencies st)")
    case True
    have unfold: "closure_loop ctx source arch i st
        = closure_loop ctx source arch (i + 1) (closure_body ctx source arch i st)"
      using True by (subst closure_loop.simps) simp
    have "replaces ctx st (closure_body ctx source arch i st)" by (rule closure_body_replaces)
    then show ?thesis unfolding unfold using "1.IH" [OF True] by (rule replaces_trans)
  next
    case False
    then have "closure_loop ctx source arch i st = st" by (subst closure_loop.simps) simp
    then show ?thesis by (simp add: replaces_refl)
  qed
qed

lemma pull_arch_replaces: "replaces ctx st (pull_arch ctx source init arch st)"
  using closure_loop_replaces [of ctx "st\<lparr>dependencies := map (\<lambda>d. d\<lparr>Architecture := arch\<rparr>) init\<rparr>" source arch 0]
  by (simp add: pull_arch_def replaces_def)

lemma closure_loop_added:
  "\<exists>es. progress (closure_loop ctx source arch i st) = progress st @ es \<and>
     (\<forall>j<length (dependencies (closure_loop ctx source arch i st)). i \<le> j \<longrightarrow>
        set (Search (CompareVersions ctx) (sourcePackageList st)
               (dependencies (closure_loop ctx source arch i st) ! j) (flag_all_matches ctx))
        \<subseteq> set (added es))"
proof (induction ctx source arch i st rule: closure_loop.induct)
  case (1 ctx source arch i st)
  show ?case
  proof (cases "i < length (dependencies st)")
    case True
    define b where "b = closure_body ctx source arch i st"
    define L where "L = closure_loop ctx source arch (i + 1) b"
    have unfold: "closure_loop ctx source arch i st = L"
      using True unfolding L_def b_def by (subst closure_loop.simps) simp
    obtain es1 where es1: "progress b = progress st @ es1"
      "added es1 = Search (CompareVersions ctx) (sourcePackageList st) (dependencies st ! i) (flag_all_matches ctx)"
      unfolding b_def using closure_body_progress by blast
    have src: "sourcePackageList b = sourcePackageList st"
      unfolding b_def by (rule closure_body_source)
    obtain es2 where es2: "progress L = progress b @ es2"
      "\<forall>j<length (dependencies L). i + 1 \<le> j \<longrightarrow>
        set (Search (CompareVersions ctx) (sourcePackageList st) (dependencies L ! j) (flag_all_matches ctx))
        \<subseteq> set (added es2)"
      using "1.IH" [OF True] unfolding b_def [symmetric] L_def [symmetric] src by blast
    obtain ns where ns: "dependencies b = dependencies st @ ns"
      unfolding b_def using closure_body_extends [of st arch ctx source i] unfolding extends_def by blast
    obtain ms where ms: "dependencies L = dependencies b @ ms"
      unfolding L_def using closure_loop_extends [of b arch ctx source "i + 1"] unfolding extends_def by blast
    have nth: "dependencies L ! i = dependencies st ! i"
      using True by (simp add: ms ns nth_append)
    have a: "progress L = progress st @ (es1 @ es2)" by (simp add: es1(1) es2(1))
    have b: "\<forall>j<length (dependencies L). i \<le> j \<longrightarrow>
        set (Search (CompareVersions ctx) (sourcePackageList st) (dependencies L ! j) (flag_all_matches ctx))
        \<subseteq> set (added (es1 @ es2))"
    proof (intro allI impI)
      fix j assume j: "j < length (dependencies L)" "i \<le> j"
      show "set (Search (CompareVersions ctx) (sourcePackageList st) (dependencies L ! j) (flag_all_matches ctx))
        \<subseteq> set (added (es1 @ es2))"
      proof (cases "j = i")
        case True
        then show ?thesis by (simp add: nth es1(2))
      next
        case False
        with j have "i + 1 \<le> j" by simp
        with es2(2) j(1) show ?thesis by auto
      qed
    qed
    from a b show ?thesis unfolding unfold by blast
  next
    case False
    then have "closure_loop ctx source arch i st = st" by (subst closure_loop.simps) simp
    with False show ?thesis by simp
  qed
qed

lemma pull_arch_kept:
  "\<exists>es. progress (pull_arch ctx source init arch st) = progress st @ es \<and>
     (\<forall>p\<in>set (packageList st). kept ctx es (packageList (pull_arch ctx source init arch st)) p) \<and>
     (\<forall>d\<in>set (dependencies (pull_arch ctx source init arch st)).
        \<forall>m\<in>set (Search (CompareVersions ctx) (sourcePackageList st) d (flag_all_matches ctx)).
          m \<in> set (added es) \<and> kept ctx es (packageList (pull_arch ctx source init arch st)) m)"
proof -
  define R where "R = pull_arch ctx source init arch st"
  define st0 where "st0 = st\<lparr>dependencies := map (\<lambda>d. d\<lparr>Architecture := arch\<rparr>) init\<rparr>"
  have R: "R = closure_loop ctx source arch 0 st0" by (simp add: R_def st0_def pull_arch_def)
  obtain es where es: "progress R = progress st @ es"
    "\<forall>p\<in>set (packageList st) \<union> set (added es). kept ctx es (packageList R) p"
    using pull_arch_replaces [of ctx st source init arch] unfolding replaces_def R_def by blast
  obtain es' where es': "progress R = progress st0 @ es'"
    "\<forall>j<length (dependencies R). 0 \<le> j \<longrightarrow>
        set (Search (CompareVersions ctx) (sourcePackageList st0) (dependencies R ! j) (flag_all_matches ctx))
        \<subseteq> set (added es')"
    using closure_loop_added [of ctx source arch 0 st0] unfolding R by blast
  have same: "es' = es" using es(1) es'(1) by (simp add: st0_def)
  have all: "\<forall>d\<in>set (dependencies R).
        \<forall>m\<in>set (Search (CompareVersions ctx) (sourcePackageList st) d (flag_all_matches ctx)).
          m \<in> set (added es) \<and> kept ctx es (packageList R) m"
  proof (intro ballI)
    fix d m
    assume d: "d \<in> set (dependencies R)"
      and m: "m \<in> set (Search (CompareVersions ctx) (sourcePackageList st) d (flag_all_matches ctx))"
    from d obtain j where j: "j < length (dependencies R)" "dependencies R ! j = d"
      by (auto simp: in_set_conv_nth)
    with es'(2) m have "m \<in> set (added es)" unfolding same by (auto simp: st0_def)
    with es(2) show "m \<in> set (added es) \<and> kept ctx es (packageList R) m" by blast
  qed
  from es all show ?thesis unfolding R_def by blast
qed

text \<open>The errors returned by the calls of \<^verbatim>\<open>VerifyDependencies\<close> at line 137, in the order in
  which the calls are made. This function follows the round over a search result (lines
  133 to 156): one call for each found package, on the list \<open>pL\<close> and the state that
  \<open>verify_found\<close> has reached.\<close>

fun verify_errors_found ::
  "context \<Rightarrow> string \<Rightarrow> package list \<Rightarrow> package list \<times> pull_state \<Rightarrow> error option list" where
  "verify_errors_found ctx arch [] acc = []"
| "verify_errors_found ctx arch (pkg # rest) acc =
     snd (VerifyDependencies (CompareVersions ctx) (Add (fst acc) pkg) [arch] (packageList (snd acc)))
     # verify_errors_found ctx arch rest (verify_found ctx arch pkg acc)"

text \<open>The errors of the calls made by the body of the loop over the work list at index \<open>i\<close>
  (lines 99 to 156): none when the search of the source finds nothing or \<^verbatim>\<open>no-deps\<close> is
  set, else those of the round over the search result, after the removals and additions.\<close>

definition verify_errors_body :: "context \<Rightarrow> string \<Rightarrow> nat \<Rightarrow> pull_state \<Rightarrow> error option list" where
  "verify_errors_body ctx arch i st =
     (let dep = dependencies st ! i;
          searchResults = Search (CompareVersions ctx) (sourcePackageList st) dep
                            (flag_all_matches ctx)
      in if searchResults = [] then []
         else
           let st1 = (if \<not> flag_no_remove ctx then fold (remove_same ctx) searchResults st
                      else st);
               st2 = fold add_found searchResults st1
           in if flag_no_deps ctx then []
              else verify_errors_found ctx arch searchResults ([], st2))"

text \<open>The errors of the calls made by the loop over the work list from index \<open>i\<close> (line 98):
  those of the body at \<open>i\<close>, then those of the loop from \<open>i + 1\<close> in the state the body
  leaves.\<close>

function verify_errors_loop ::
  "context \<Rightarrow> Snapshot \<Rightarrow> string \<Rightarrow> nat \<Rightarrow> pull_state \<Rightarrow> error option list" where
  "verify_errors_loop ctx source arch i st =
     (if i < length (dependencies st)
      then verify_errors_body ctx arch i st @
           verify_errors_loop ctx source arch (i + 1) (closure_body ctx source arch i st)
      else [])"
  by pat_completeness auto
termination
proof (relation "measure (\<lambda>(ctx, source, arch, i, st).
    length (dependencies st) + card (set (declared (sourcePackageList st) arch) - set (dependencies st)) - i)")
  show "wf (measure (\<lambda>(ctx, source, arch, i, st).
    length (dependencies st) + card (set (declared (sourcePackageList st) arch) - set (dependencies st)) - i))"
    by simp
next
  fix ctx :: "context" and source :: Snapshot and arch :: string and i :: nat and st :: pull_state
  assume "i < length (dependencies st)"
  then show "((ctx, source, arch, i + 1, closure_body ctx source arch i st), (ctx, source, arch, i, st))
    \<in> measure (\<lambda>(ctx, source, arch, i, st).
    length (dependencies st) + card (set (declared (sourcePackageList st) arch) - set (dependencies st)) - i)"
    by (simp add: closure_body_source closure_body_bound)
qed

declare verify_errors_loop.simps [simp del]

text \<open>The errors of the calls made by the loop over the architectures (lines 90 to 158):
  those of the first architecture, then those of the others in the state the first
  leaves.\<close>

fun verify_errors ::
  "context \<Rightarrow> Snapshot \<Rightarrow> Dependency list \<Rightarrow> string list \<Rightarrow> pull_state \<Rightarrow> error option list" where
  "verify_errors ctx source initialDependencies [] st = []"
| "verify_errors ctx source initialDependencies (arch # rest) st =
     verify_errors_loop ctx source arch 0
       (st\<lparr>dependencies := map (\<lambda>d. d\<lparr>Architecture := arch\<rparr>) initialDependencies\<rparr>)
     @ verify_errors ctx source initialDependencies rest
         (pull_arch ctx source initialDependencies arch st)"

lemma last_last: "last (last (x # xs) # ys) = last (x # xs @ ys)"
  by (cases ys) (simp_all add: last_append)

lemma err_verify_found:
  "err (snd (verify_found ctx arch pkg acc)) =
     snd (VerifyDependencies (CompareVersions ctx) (Add (fst acc) pkg) [arch] (packageList (snd acc)))"
  by (simp add: verify_found_def Let_def split: option.splits)

lemma err_fold_verify_found_last:
  "err (snd (fold (verify_found ctx arch) rs acc)) = last (err (snd acc) # verify_errors_found ctx arch rs acc)"
proof (induction rs arbitrary: acc)
  case Nil
  show ?case by simp
next
  case (Cons r rs)
  have "err (snd (fold (verify_found ctx arch) (r # rs) acc))
      = last (err (snd (verify_found ctx arch r acc)) # verify_errors_found ctx arch rs (verify_found ctx arch r acc))"
    using Cons.IH [of "verify_found ctx arch r acc"] by simp
  then show ?case by (simp add: err_verify_found)
qed

lemma closure_body_err_last:
  "err (closure_body ctx source arch i st) = last (err st # verify_errors_body ctx arch i st)"
proof -
  define rs where "rs = Search (CompareVersions ctx) (sourcePackageList st) (dependencies st ! i) (flag_all_matches ctx)"
  define st2 where "st2 = fold add_found rs (if \<not> flag_no_remove ctx then fold (remove_same ctx) rs st else st)"
  have e2: "err st2 = err st"
    unfolding st2_def by (simp add: fold_add_found_frame fold_remove_same_frame)
  show ?thesis
  proof (cases "rs = [] \<or> flag_no_deps ctx")
    case True
    then have "verify_errors_body ctx arch i st = []"
      by (auto simp: verify_errors_body_def Let_def rs_def [symmetric])
    moreover have "err (closure_body ctx source arch i st) = err st"
      using True unfolding rs_def using closure_body_no_deps [of ctx source arch i st]
      by (auto simp: closure_body_unsatisfied)
    ultimately show ?thesis by simp
  next
    case False
    then have body: "closure_body ctx source arch i st = snd (fold (verify_found ctx arch) rs ([], st2))"
      by (simp add: closure_body_def Let_def rs_def [symmetric] st2_def)
    from False have v: "verify_errors_body ctx arch i st = verify_errors_found ctx arch rs ([], st2)"
      by (simp add: verify_errors_body_def Let_def rs_def [symmetric] st2_def)
    show ?thesis unfolding body v by (simp add: err_fold_verify_found_last e2)
  qed
qed

lemma closure_loop_err_last:
  "err (closure_loop ctx source arch i st) = last (err st # verify_errors_loop ctx source arch i st)"
proof (induction ctx source arch i st rule: closure_loop.induct)
  case (1 ctx source arch i st)
  show ?case
  proof (cases "i < length (dependencies st)")
    case True
    have u1: "closure_loop ctx source arch i st
        = closure_loop ctx source arch (i + 1) (closure_body ctx source arch i st)"
      using True by (subst closure_loop.simps) simp
    have u2: "verify_errors_loop ctx source arch i st
        = verify_errors_body ctx arch i st @
          verify_errors_loop ctx source arch (i + 1) (closure_body ctx source arch i st)"
      using True by (subst verify_errors_loop.simps) simp
    show ?thesis
      unfolding u1 u2 "1.IH" [OF True] closure_body_err_last by (rule last_last)
  next
    case False
    then have "closure_loop ctx source arch i st = st" by (subst closure_loop.simps) simp
    moreover from False have "verify_errors_loop ctx source arch i st = []"
      by (subst verify_errors_loop.simps) simp
    ultimately show ?thesis by simp
  qed
qed

lemma perform_pull_err_last:
  "err (perform_pull ctx source init archs st) = last (err st # verify_errors ctx source init archs st)"
proof (induction archs arbitrary: st)
  case Nil
  show ?case by (simp add: perform_pull_def)
next
  case (Cons a archs)
  let ?st0 = "st\<lparr>dependencies := map (\<lambda>d. d\<lparr>Architecture := a\<rparr>) init\<rparr>"
  have "err (pull_arch ctx source init a st) = last (err st # verify_errors_loop ctx source a 0 ?st0)"
    using closure_loop_err_last [of ctx source a 0 ?st0] by (simp add: pull_arch_def)
  moreover have "err (perform_pull ctx source init (a # archs) st)
      = last (err (pull_arch ctx source init a st) #
              verify_errors ctx source init archs (pull_arch ctx source init a st))"
    using Cons.IH [of "pull_arch ctx source init a st"] by (simp add: perform_pull_def)
  ultimately show ?case by (simp add: last_last)
qed

text \<open>An expression for one exact version of a package, as \<^verbatim>\<open>name (= version)\<close>.\<close>

definition example_version :: "string \<Rightarrow> string \<Rightarrow> Dependency" where
  "example_version n v = \<lparr>Pkg = n, Architecture = [], Constraint = Some (VersionEqual, v)\<rparr>"

lemma Search_name_arch_empty:
  assumes "\<forall>p\<in>set l. \<not> same_name_arch p m"
  shows "Search cmp l \<lparr>Pkg = pkg_Name m, Architecture = pkg_Architecture m, Constraint = None\<rparr> am = []"
proof -
  define S where "S = Search cmp l
      \<lparr>Pkg = pkg_Name m, Architecture = pkg_Architecture m, Constraint = None\<rparr> am"
  have "False" if "p \<in> set S" for p
  proof -
    have "same_name_arch p m" using that unfolding S_def by (rule Search_name_arch)
    moreover have "p \<in> set l" using that Search_subset unfolding S_def by blast
    ultimately show False using assms by blast
  qed
  then have "set S = {}" by (rule equals0I)
  then show ?thesis unfolding S_def by simp
qed

lemma fold_remove_same_search_empty:
  assumes "m \<in> set rs"
  shows "Search (CompareVersions ctx) (packageList (fold (remove_same ctx) rs st))
     \<lparr>Pkg = pkg_Name m, Architecture = pkg_Architecture m, Constraint = None\<rparr> (flag_all_matches ctx) = []"
  using assms by (intro Search_name_arch_empty) (simp add: fold_remove_same_exact)

lemma closure_body_removes_then_adds:
  assumes "\<not> flag_no_remove ctx"
  shows "packageList (closure_body ctx source arch i st) =
     fold (\<lambda>p l. Add l p)
       (Search (CompareVersions ctx) (sourcePackageList st) (dependencies st ! i) (flag_all_matches ctx))
       (packageList (fold (remove_same ctx)
          (Search (CompareVersions ctx) (sourcePackageList st) (dependencies st ! i) (flag_all_matches ctx))
          st))"
proof -
  define rs where "rs = Search (CompareVersions ctx) (sourcePackageList st) (dependencies st ! i) (flag_all_matches ctx)"
  show ?thesis
  proof (cases "rs = []")
    case True
    then show ?thesis
      unfolding rs_def [symmetric] by (simp add: closure_body_unsatisfied rs_def)
  next
    case False
    then show ?thesis
      using assms unfolding rs_def [symmetric]
      by (simp add: closure_body_def Let_def rs_def [symmetric] fold_verify_found_frame
          packageList_fold_add_found)
  qed
qed

section \<open>The claims\<close>

text \<open>Claim C1 as stated fails, in two ways. With \<^verbatim>\<open>all-matches\<close> set (and \<^verbatim>\<open>no-remove\<close>
  unset) the search of the source for \<open>pkgA\<close> returns both versions; both are added after
  the removal, and the destination ends with two versions of \<open>pkgA\<close> for \<open>amd64\<close>. And
  with the default flags a destination that holds two versions of \<open>pkgA\<close> before pulling
  \<open>pkgB\<close> holds them after it: the pull removes only packages that share name and
  architecture with a match.\<close>

theorem two_versions_in_destination:
  "\<not> one_version (packageList
       (perform_pull ((example_context [])\<lparr>flag_all_matches := True\<rparr>)
          (example_snapshot ''src'' [pkgA1, pkgA2]) [example_dependency ''pkgA''] [''amd64'']
          (initial_state ((example_context [])\<lparr>flag_all_matches := True\<rparr>) [] [pkgA1, pkgA2]))) \<and>
   \<not> one_version (packageList
       (perform_pull (example_context [])
          (example_snapshot ''src'' [pkgB]) [example_dependency ''pkgB''] [''amd64'']
          (initial_state (example_context []) [pkgA1, pkgA2] [pkgB])))"
  by code_simp

text \<open>Claim C1, amended. With \<^verbatim>\<open>no-remove\<close> unset, whatever the other flags, the destination
  after the body of the loop for the work-list entry at index \<open>i\<close> is the destination
  after the removal loops of lines 110 to 118 with the matches added (lines 122 to 125);
  after these removal loops the search of the destination for the name and architecture
  of any match returns nothing. So the body leaves in the destination exactly the
  packages it held that share name and architecture with no match, and the matches. With \<^verbatim>\<open>no-remove\<close> and
  \<^verbatim>\<open>all-matches\<close> both unset, after the pull over all architectures the destination holds
  at most one version for the name and architecture of every package that the pull
  added; and a destination that held at most one version for every name and architecture
  before the pull still does after it.\<close>

theorem replace_in_place:
  "(\<not> flag_no_remove ctx \<longrightarrow>
      packageList (closure_body ctx source arch i st) =
        fold (\<lambda>p l. Add l p)
          (Search (CompareVersions ctx) (sourcePackageList st) (dependencies st ! i)
             (flag_all_matches ctx))
          (packageList (fold (remove_same ctx)
             (Search (CompareVersions ctx) (sourcePackageList st) (dependencies st ! i)
                (flag_all_matches ctx)) st))) \<and>
   (\<not> flag_no_remove ctx \<longrightarrow>
      (\<forall>m\<in>set (Search (CompareVersions ctx) (sourcePackageList st) (dependencies st ! i)
                  (flag_all_matches ctx)).
         Search (CompareVersions ctx)
           (packageList (fold (remove_same ctx)
              (Search (CompareVersions ctx) (sourcePackageList st) (dependencies st ! i)
                 (flag_all_matches ctx)) st))
           \<lparr>Pkg = pkg_Name m, Architecture = pkg_Architecture m, Constraint = None\<rparr>
           (flag_all_matches ctx) = [])) \<and>
   (\<not> flag_no_remove ctx \<longrightarrow>
      set (packageList (closure_body ctx source arch i st)) =
        {p \<in> set (packageList st).
           \<forall>m\<in>set (Search (CompareVersions ctx) (sourcePackageList st) (dependencies st ! i)
                       (flag_all_matches ctx)). \<not> same_name_arch p m} \<union>
        set (Search (CompareVersions ctx) (sourcePackageList st) (dependencies st ! i)
               (flag_all_matches ctx))) \<and>
   (\<not> flag_no_remove ctx \<longrightarrow> \<not> flag_all_matches ctx \<longrightarrow>
      (\<exists>es. progress (perform_pull ctx source initialDependencies architecturesList st)
              = progress st @ es \<and>
            (\<forall>m\<in>set (added es). one_version_of m
               (packageList (perform_pull ctx source initialDependencies architecturesList st)))) \<and>
      (one_version (packageList st) \<longrightarrow>
         one_version (packageList
           (perform_pull ctx source initialDependencies architecturesList st))))"
proof (intro conjI impI ballI)
  assume "\<not> flag_no_remove ctx"
  then show "packageList (closure_body ctx source arch i st) =
        fold (\<lambda>p l. Add l p)
          (Search (CompareVersions ctx) (sourcePackageList st) (dependencies st ! i)
             (flag_all_matches ctx))
          (packageList (fold (remove_same ctx)
             (Search (CompareVersions ctx) (sourcePackageList st) (dependencies st ! i)
                (flag_all_matches ctx)) st))"
    by (rule closure_body_removes_then_adds)
next
  fix m
  assume "m \<in> set (Search (CompareVersions ctx) (sourcePackageList st) (dependencies st ! i)
               (flag_all_matches ctx))"
  then show "Search (CompareVersions ctx)
        (packageList (fold (remove_same ctx)
           (Search (CompareVersions ctx) (sourcePackageList st) (dependencies st ! i)
              (flag_all_matches ctx)) st))
        \<lparr>Pkg = pkg_Name m, Architecture = pkg_Architecture m, Constraint = None\<rparr>
        (flag_all_matches ctx) = []"
    by (rule fold_remove_same_search_empty)
next
  assume "\<not> flag_no_remove ctx"
  then show "set (packageList (closure_body ctx source arch i st)) =
        {p \<in> set (packageList st).
           \<forall>m\<in>set (Search (CompareVersions ctx) (sourcePackageList st) (dependencies st ! i)
                       (flag_all_matches ctx)). \<not> same_name_arch p m} \<union>
        set (Search (CompareVersions ctx) (sourcePackageList st) (dependencies st ! i)
               (flag_all_matches ctx))"
    by (rule closure_body_replaces_in_place)
next
  let ?R = "perform_pull ctx source initialDependencies architecturesList st"
  assume f: "\<not> flag_no_remove ctx" "\<not> flag_all_matches ctx"
  obtain es where es: "progress ?R = progress st @ es"
    using perform_pull_progress by blast
  have "\<forall>m\<in>set (added es). one_version_of m (packageList ?R)"
  proof
    fix m assume m: "m \<in> set (added es)"
    have "keeps_one_version m st ?R" using f by (rule perform_pull_keeps_one_version)
    with es m show "one_version_of m (packageList ?R)"
      unfolding keeps_one_version_def by auto
  qed
  with es show "\<exists>es. progress ?R = progress st @ es \<and>
      (\<forall>m\<in>set (added es). one_version_of m (packageList ?R))"
    by blast
next
  let ?R = "perform_pull ctx source initialDependencies architecturesList st"
  assume f: "\<not> flag_no_remove ctx" "\<not> flag_all_matches ctx" and o: "one_version (packageList st)"
  have "one_version_of m (packageList ?R)" for m
    using perform_pull_keeps_one_version [OF f, of m st source initialDependencies architecturesList] o
    unfolding keeps_one_version_def one_version_iff by blast
  then show "one_version (packageList ?R)" unfolding one_version_iff by blast
qed

text \<open>Claim C1, amended, at the example of the specification: the destination holds \<open>pkgA\<close>
  1.0, the source \<open>pkgA\<close> 2.0 and \<open>pkgB\<close>; after the pull the destination holds \<open>pkgA\<close>
  2.0 and \<open>pkgB\<close> and one version of each.\<close>

theorem replace_in_place_witness:
  "one_version (packageList
     (perform_pull (example_context []) (example_snapshot ''src'' [pkgA2, pkgB])
        [example_dependency ''pkgA''] [''amd64'']
        (initial_state (example_context []) [pkgA1] [pkgA2, pkgB]))) \<and>
   packageList
     (perform_pull (example_context []) (example_snapshot ''src'' [pkgA2, pkgB])
        [example_dependency ''pkgA''] [''amd64'']
        (initial_state (example_context []) [pkgA1] [pkgA2, pkgB])) = [pkgA2, pkgB]"
proof -
  have "one_version (packageList (initial_state (example_context []) [pkgA1] [pkgA2, pkgB]))"
    by (simp add: initial_state_def one_version_def)
  moreover have "\<not> flag_no_remove (example_context [])" "\<not> flag_all_matches (example_context [])"
    by (simp_all add: example_context_def)
  ultimately have "one_version (packageList
     (perform_pull (example_context []) (example_snapshot ''src'' [pkgA2, pkgB])
        [example_dependency ''pkgA''] [''amd64'']
        (initial_state (example_context []) [pkgA1] [pkgA2, pkgB])))"
    using replace_in_place [of "example_context []" "example_snapshot ''src'' [pkgA2, pkgB]" "''amd64''" 0
        "initial_state (example_context []) [pkgA1] [pkgA2, pkgB]"
        "[example_dependency ''pkgA'']" "[''amd64'']"]
    by blast
  moreover have "packageList
     (perform_pull (example_context []) (example_snapshot ''src'' [pkgA2, pkgB])
        [example_dependency ''pkgA''] [''amd64'']
        (initial_state (example_context []) [pkgA1] [pkgA2, pkgB])) = [pkgA2, pkgB]"
    by code_simp
  ultimately show ?thesis by blast
qed

text \<open>Claim C2 as stated fails. The source holds the single package \<open>pkgD\<close>, so \<open>D = 1\<close>;
  \<open>pkgD\<close> requires \<open>pkgE\<close> and \<open>pkgF\<close>, which the destination lacks; pulling \<open>pkgD\<close>
  leaves a work list of three entries.\<close>

theorem work_list_exceeds_pairs:
  "distinct_name_arch [pkgD] = 1 \<and>
   length (dependencies
        (pull_arch (example_context []) (example_snapshot ''src'' [pkgD])
           [example_dependency ''pkgD''] ''amd64''
           (initial_state (example_context []) [] [pkgD]))) = 3 \<and>
   \<not> length (dependencies
        (pull_arch (example_context []) (example_snapshot ''src'' [pkgD])
           [example_dependency ''pkgD''] ''amd64''
           (initial_state (example_context []) [] [pkgD])))
      \<le> distinct_name_arch [pkgD]"
  by code_simp

text \<open>Claim C2, amended. For one architecture the work list after the closure is the list
  of initial expressions followed by pairwise distinct expressions, none of them equal to
  an initial one, each declared by a package of the source (bound to the architecture).
  Hence its length is at most the number of initial expressions plus the number of
  distinct declared expressions. The loop terminates: \<open>closure_loop\<close> is a total function,
  by this bound. An expression is appended only when \<open>found\<close> does not find it.\<close>

theorem work_list_bound:
  "(\<exists>ns. dependencies (pull_arch ctx source initialDependencies arch st)
           = map (\<lambda>d. d\<lparr>Architecture := arch\<rparr>) initialDependencies @ ns \<and>
         distinct ns \<and>
         set ns \<inter> set (map (\<lambda>d. d\<lparr>Architecture := arch\<rparr>) initialDependencies) = {} \<and>
         set ns \<subseteq> set (declared (sourcePackageList st) arch)) \<and>
   length (dependencies (pull_arch ctx source initialDependencies arch st))
     \<le> length initialDependencies + length (remdups (declared (sourcePackageList st) arch))"
proof -
  let ?W0 = "map (\<lambda>d. d\<lparr>Architecture := arch\<rparr>) initialDependencies"
  let ?U = "set (declared (sourcePackageList st) arch)"
  have ext: "extends ?U ?W0 (dependencies (pull_arch ctx source initialDependencies arch st))"
    by (rule pull_arch_extends)
  then obtain ns where ns: "dependencies (pull_arch ctx source initialDependencies arch st) = ?W0 @ ns"
    "distinct ns" "set ns \<inter> set ?W0 = {}" "set ns \<subseteq> ?U"
    unfolding extends_def by blast
  have "length ns = card (set ns)" using ns(2) by (simp add: distinct_card)
  also have "\<dots> \<le> card ?U" using ns(4) by (simp add: card_mono)
  also have "\<dots> = length (remdups (declared (sourcePackageList st) arch))"
    by (simp add: length_remdups_card_conv)
  finally have "length (dependencies (pull_arch ctx source initialDependencies arch st))
     \<le> length initialDependencies + length (remdups (declared (sourcePackageList st) arch))"
    by (simp add: ns(1))
  with ns show ?thesis by blast
qed

text \<open>Claim C2, amended, at the example of the three entries: one initial expression and
  two declared ones.\<close>

theorem work_list_bound_witness:
  "length (dependencies
      (pull_arch (example_context []) (example_snapshot ''src'' [pkgD])
         [example_dependency ''pkgD''] ''amd64''
         (initial_state (example_context []) [] [pkgD])))
   \<le> 1 + 2"
proof -
  have "length (remdups (declared [pkgD] ''amd64'')) = 2" by code_simp
  then show ?thesis
    using work_list_bound [of "example_context []" "example_snapshot ''src'' [pkgD]"
      "[example_dependency ''pkgD'']" "''amd64''" "initial_state (example_context []) [] [pkgD]"]
    by (simp add: initial_state_def)
qed

text \<open>Claim C3 as stated fails. \<^verbatim>\<open>no-deps\<close> is set and \<^verbatim>\<open>no-remove\<close> unset; the initial
  expressions \<open>pkgA (= 1.0)\<close> and \<open>pkgA (= 2.0)\<close> find \<open>pkgA\<close> 1.0 and \<open>pkgA\<close> 2.0 in the
  source. The second match replaces the first (lines 110 to 118), so the destination,
  empty before, ends with \<open>pkgA\<close> 2.0 only: it has not gained exactly the matches.\<close>

theorem no_deps_match_replaced:
  "flag_no_deps ((example_context [])\<lparr>flag_no_deps := True\<rparr>) \<and>
   matches ((example_context [])\<lparr>flag_no_deps := True\<rparr>) [pkgA1, pkgA2]
     (map (\<lambda>d. d\<lparr>Architecture := ''amd64''\<rparr>)
        [example_version ''pkgA'' ''1.0'', example_version ''pkgA'' ''2.0''])
     = [pkgA1, pkgA2] \<and>
   packageList
     (pull_arch ((example_context [])\<lparr>flag_no_deps := True\<rparr>)
        (example_snapshot ''src'' [pkgA1, pkgA2])
        [example_version ''pkgA'' ''1.0'', example_version ''pkgA'' ''2.0''] ''amd64''
        (initial_state ((example_context [])\<lparr>flag_no_deps := True\<rparr>) [] [pkgA1, pkgA2]))
     = [pkgA2]"
  by code_simp

text \<open>Claim C3, amended. With \<^verbatim>\<open>no-deps\<close> set, the run for an architecture leaves the work
  list as the initial expressions bound to the architecture, never assigns \<^verbatim>\<open>err\<close> (no
  verification takes place), and adds to the destination exactly the packages that the
  searches of the source for these expressions return, in that order. The destination
  afterwards holds nothing but what it held and these packages; with \<^verbatim>\<open>no-remove\<close> set it
  holds exactly those. Every one of these matches is in the destination afterwards, or,
  with \<^verbatim>\<open>no-remove\<close> unset, has been replaced there by another of these matches with the
  same name and architecture.\<close>

theorem no_deps_pulls_matches:
  assumes "flag_no_deps ctx"
  shows "dependencies (pull_arch ctx source initialDependencies arch st)
           = map (\<lambda>d. d\<lparr>Architecture := arch\<rparr>) initialDependencies \<and>
         err (pull_arch ctx source initialDependencies arch st) = err st \<and>
         added (progress (pull_arch ctx source initialDependencies arch st))
           = added (progress st) @
             matches ctx (sourcePackageList st) (map (\<lambda>d. d\<lparr>Architecture := arch\<rparr>) initialDependencies) \<and>
         set (packageList (pull_arch ctx source initialDependencies arch st))
           \<subseteq> set (packageList st) \<union>
             set (matches ctx (sourcePackageList st) (map (\<lambda>d. d\<lparr>Architecture := arch\<rparr>) initialDependencies)) \<and>
         (flag_no_remove ctx \<longrightarrow>
            set (packageList (pull_arch ctx source initialDependencies arch st))
              = set (packageList st) \<union>
                set (matches ctx (sourcePackageList st) (map (\<lambda>d. d\<lparr>Architecture := arch\<rparr>) initialDependencies))) \<and>
         (\<exists>es. progress (pull_arch ctx source initialDependencies arch st) = progress st @ es \<and>
            added es = matches ctx (sourcePackageList st)
                         (map (\<lambda>d. d\<lparr>Architecture := arch\<rparr>) initialDependencies) \<and>
            (\<forall>m\<in>set (matches ctx (sourcePackageList st)
                         (map (\<lambda>d. d\<lparr>Architecture := arch\<rparr>) initialDependencies)).
               kept ctx es (packageList (pull_arch ctx source initialDependencies arch st)) m))"
proof -
  define R where "R = pull_arch ctx source initialDependencies arch st"
  define W where "W = map (\<lambda>d. d\<lparr>Architecture := arch\<rparr>) initialDependencies"
  define M where "M = matches ctx (sourcePackageList st) W"
  have old: "dependencies R = W" "err R = err st" "added (progress R) = added (progress st) @ M"
    "set (packageList R) \<subseteq> set (packageList st) \<union> set M"
    "flag_no_remove ctx \<longrightarrow> set (packageList R) = set (packageList st) \<union> set M"
    using closure_loop_no_deps [OF assms, of source arch 0 "st\<lparr>dependencies := W\<rparr>"]
    unfolding R_def W_def M_def by (simp_all add: pull_arch_def)
  obtain es where es: "progress R = progress st @ es"
    "\<forall>d\<in>set (dependencies R).
        \<forall>m\<in>set (Search (CompareVersions ctx) (sourcePackageList st) d (flag_all_matches ctx)).
          m \<in> set (added es) \<and> kept ctx es (packageList R) m"
    using pull_arch_kept [of ctx source initialDependencies arch st] unfolding R_def by blast
  have a: "added es = M" using old(3) by (simp add: es(1))
  have k: "\<forall>m\<in>set M. kept ctx es (packageList R) m"
    using es(2) unfolding old(1) M_def matches_def by auto
  from es(1) a k have "\<exists>es. progress R = progress st @ es \<and> added es = M \<and>
      (\<forall>m\<in>set M. kept ctx es (packageList R) m)" by blast
  with old show ?thesis unfolding R_def W_def M_def by blast
qed

text \<open>Claim C3, amended, at the example: with \<^verbatim>\<open>no-deps\<close>, pulling \<open>pkgA\<close> adds \<open>pkgA\<close> 2.0, which
  is in the destination afterwards, and not the \<open>pkgB\<close> it requires.\<close>

theorem no_deps_pulls_matches_witness:
  "added (progress
     (pull_arch ((example_context [])\<lparr>flag_no_deps := True\<rparr>)
        (example_snapshot ''src'' [pkgA2, pkgB]) [example_dependency ''pkgA''] ''amd64''
        (initial_state ((example_context [])\<lparr>flag_no_deps := True\<rparr>) [] [pkgA2, pkgB])))
   = [pkgA2] \<and>
   dependencies
     (pull_arch ((example_context [])\<lparr>flag_no_deps := True\<rparr>)
        (example_snapshot ''src'' [pkgA2, pkgB]) [example_dependency ''pkgA''] ''amd64''
        (initial_state ((example_context [])\<lparr>flag_no_deps := True\<rparr>) [] [pkgA2, pkgB]))
   = [\<lparr>Pkg = ''pkgA'', Architecture = ''amd64'', Constraint = None\<rparr>] \<and>
   pkgA2 \<in> set (packageList
     (pull_arch ((example_context [])\<lparr>flag_no_deps := True\<rparr>)
        (example_snapshot ''src'' [pkgA2, pkgB]) [example_dependency ''pkgA''] ''amd64''
        (initial_state ((example_context [])\<lparr>flag_no_deps := True\<rparr>) [] [pkgA2, pkgB])))"
proof -
  let ?ctx = "(example_context [])\<lparr>flag_no_deps := True\<rparr>"
  let ?st = "initial_state ?ctx [] [pkgA2, pkgB]"
  let ?R = "pull_arch ?ctx (example_snapshot ''src'' [pkgA2, pkgB]) [example_dependency ''pkgA''] ''amd64'' ?st"
  have f: "flag_no_deps ?ctx" by simp
  have m: "matches ?ctx (sourcePackageList ?st)
      (map (\<lambda>d. d\<lparr>Architecture := ''amd64''\<rparr>) [example_dependency ''pkgA'']) = [pkgA2]"
    by code_simp
  have p: "added (progress ?st) = []"
    by (simp add: initial_state_def example_context_def)
  note inst = no_deps_pulls_matches [OF f, of "example_snapshot ''src'' [pkgA2, pkgB]"
        "[example_dependency ''pkgA'']" "''amd64''" ?st, unfolded m p]
  from inst have 1: "added (progress ?R) = [pkgA2]" by simp
  from inst have 2: "dependencies ?R = [\<lparr>Pkg = ''pkgA'', Architecture = ''amd64'', Constraint = None\<rparr>]"
    by (simp add: example_dependency_def)
  from inst obtain es where "added es = [pkgA2]" "\<forall>m\<in>set [pkgA2]. kept ?ctx es (packageList ?R) m"
    by blast
  then have 3: "pkgA2 \<in> set (packageList ?R)"
    by (auto simp: kept_def same_name_arch_def)
  from 1 2 3 show ?thesis by blast
qed

text \<open>Claim C4 as stated fails in its last part. With the default flags, \<open>nope\<close> has no match
  in the source; \<open>pkgA (= 1.0)\<close> is resolvable and its match \<open>pkgA\<close> 1.0 is added, but the
  match of the next expression, \<open>pkgA (= 2.0)\<close>, replaces it (lines 110 to 118). The
  destination ends as \<open>pkgA\<close> 2.0 alone, in which a search for \<open>pkgA (= 1.0)\<close> finds
  nothing: this resolvable expression is not satisfied after the run.\<close>

theorem resolvable_match_replaced:
  "Search example_cmp [pkgA1, pkgA2] ((example_dependency ''nope'')\<lparr>Architecture := ''amd64''\<rparr>) False = [] \<and>
   Search example_cmp [pkgA1, pkgA2] ((example_version ''pkgA'' ''1.0'')\<lparr>Architecture := ''amd64''\<rparr>) False
     = [pkgA1] \<and>
   packageList
     (pull_arch (example_context []) (example_snapshot ''src'' [pkgA1, pkgA2])
        [example_dependency ''nope'', example_version ''pkgA'' ''1.0'', example_version ''pkgA'' ''2.0'']
        ''amd64'' (initial_state (example_context []) [] [pkgA1, pkgA2]))
     = [pkgA2] \<and>
   Search example_cmp
     (packageList
        (pull_arch (example_context []) (example_snapshot ''src'' [pkgA1, pkgA2])
           [example_dependency ''nope'', example_version ''pkgA'' ''1.0'', example_version ''pkgA'' ''2.0'']
           ''amd64'' (initial_state (example_context []) [] [pkgA1, pkgA2])))
     ((example_version ''pkgA'' ''1.0'')\<lparr>Architecture := ''amd64''\<rparr>) False
     = []"
  by code_simp

text \<open>Claim C4, amended. When the search of the source for the work-list entry at index \<open>i\<close>
  finds nothing, the body of the loop only writes the diagnostic of line 104: destination,
  work list and \<^verbatim>\<open>err\<close> stay as they are, and the loop goes on. The run for an
  architecture completes (\<open>pull_arch\<close> is total), its work list holds every initial
  expression, and every entry of the work list has been processed: the diagnostic is
  there when the source has no match, and every match has been added otherwise. Every
  match of every entry is reported as added by the run and is in the destination
  afterwards, or, with \<^verbatim>\<open>no-remove\<close> unset, has been replaced there by a package of the
  same name and architecture that the run added; so is every package that the
  destination held before.\<close>

theorem unsatisfiable_does_not_abort:
  "(Search (CompareVersions ctx) (sourcePackageList st) (dependencies st ! i) (flag_all_matches ctx) = []
      \<longrightarrow> closure_body ctx source arch i st
            = st\<lparr>progress := progress st @ [CantBeSatisfied (dependencies st ! i) source]\<rparr>) \<and>
   set (map (\<lambda>d. d\<lparr>Architecture := arch\<rparr>) initialDependencies)
     \<subseteq> set (dependencies (pull_arch ctx source initialDependencies arch st)) \<and>
   (\<forall>d\<in>set (dependencies (pull_arch ctx source initialDependencies arch st)).
      processed ctx source (sourcePackageList st)
        (progress (pull_arch ctx source initialDependencies arch st)) d) \<and>
   (\<exists>es. progress (pull_arch ctx source initialDependencies arch st) = progress st @ es \<and>
      (\<forall>p\<in>set (packageList st).
         kept ctx es (packageList (pull_arch ctx source initialDependencies arch st)) p) \<and>
      (\<forall>d\<in>set (dependencies (pull_arch ctx source initialDependencies arch st)).
         \<forall>m\<in>set (Search (CompareVersions ctx) (sourcePackageList st) d (flag_all_matches ctx)).
           m \<in> set (added es) \<and>
           kept ctx es (packageList (pull_arch ctx source initialDependencies arch st)) m))"
proof (intro conjI impI)
  assume "Search (CompareVersions ctx) (sourcePackageList st) (dependencies st ! i) (flag_all_matches ctx) = []"
  then show "closure_body ctx source arch i st
      = st\<lparr>progress := progress st @ [CantBeSatisfied (dependencies st ! i) source]\<rparr>"
    by (rule closure_body_unsatisfied)
next
  obtain ns where "dependencies (pull_arch ctx source initialDependencies arch st)
      = map (\<lambda>d. d\<lparr>Architecture := arch\<rparr>) initialDependencies @ ns"
    using pull_arch_extends [of st arch initialDependencies ctx source] unfolding extends_def by blast
  then show "set (map (\<lambda>d. d\<lparr>Architecture := arch\<rparr>) initialDependencies)
     \<subseteq> set (dependencies (pull_arch ctx source initialDependencies arch st))"
    by simp
next
  show "\<forall>d\<in>set (dependencies (pull_arch ctx source initialDependencies arch st)).
      processed ctx source (sourcePackageList st)
        (progress (pull_arch ctx source initialDependencies arch st)) d"
    by (rule pull_arch_processed)
next
  show "\<exists>es. progress (pull_arch ctx source initialDependencies arch st) = progress st @ es \<and>
      (\<forall>p\<in>set (packageList st).
         kept ctx es (packageList (pull_arch ctx source initialDependencies arch st)) p) \<and>
      (\<forall>d\<in>set (dependencies (pull_arch ctx source initialDependencies arch st)).
         \<forall>m\<in>set (Search (CompareVersions ctx) (sourcePackageList st) d (flag_all_matches ctx)).
           m \<in> set (added es) \<and>
           kept ctx es (packageList (pull_arch ctx source initialDependencies arch st)) m)"
    by (rule pull_arch_kept)
qed

text \<open>Claim C4, amended, at the example: \<open>nope\<close> is not in the source and is reported; \<open>pkgB\<close>,
  the expression after it, is still pulled and is in the destination afterwards.\<close>

theorem unsatisfiable_does_not_abort_witness:
  "CantBeSatisfied \<lparr>Pkg = ''nope'', Architecture = ''amd64'', Constraint = None\<rparr>
       (example_snapshot ''src'' [pkgA2, pkgB])
     \<in> set (progress (pull_arch (example_context []) (example_snapshot ''src'' [pkgA2, pkgB])
          [example_dependency ''nope'', example_dependency ''pkgB''] ''amd64''
          (initial_state (example_context []) [pkgA1] [pkgA2, pkgB]))) \<and>
   Added pkgB
     \<in> set (progress (pull_arch (example_context []) (example_snapshot ''src'' [pkgA2, pkgB])
          [example_dependency ''nope'', example_dependency ''pkgB''] ''amd64''
          (initial_state (example_context []) [pkgA1] [pkgA2, pkgB]))) \<and>
   pkgB
     \<in> set (packageList (pull_arch (example_context []) (example_snapshot ''src'' [pkgA2, pkgB])
          [example_dependency ''nope'', example_dependency ''pkgB''] ''amd64''
          (initial_state (example_context []) [pkgA1] [pkgA2, pkgB])))"
proof -
  let ?ctx = "example_context []"
  let ?src = "example_snapshot ''src'' [pkgA2, pkgB]"
  let ?st = "initial_state (example_context []) [pkgA1] [pkgA2, pkgB]"
  let ?R = "pull_arch ?ctx ?src [example_dependency ''nope'', example_dependency ''pkgB''] ''amd64'' ?st"
  let ?nope = "\<lparr>Pkg = ''nope'', Architecture = ''amd64'', Constraint = None\<rparr>"
  let ?b = "\<lparr>Pkg = ''pkgB'', Architecture = ''amd64'', Constraint = None\<rparr>"
  have s1: "Search (CompareVersions ?ctx) (sourcePackageList ?st) ?nope (flag_all_matches ?ctx) = []"
    by code_simp
  have s2: "Search (CompareVersions ?ctx) (sourcePackageList ?st) ?b (flag_all_matches ?ctx) = [pkgB]"
    by code_simp
  note inst = unsatisfiable_does_not_abort [of ?ctx ?st 0 ?src "''amd64''"
        "[example_dependency ''nope'', example_dependency ''pkgB'']"]
  from inst have all: "\<forall>d\<in>set (dependencies ?R). processed ?ctx ?src (sourcePackageList ?st) (progress ?R) d"
    and init: "set (map (\<lambda>d. d\<lparr>Architecture := ''amd64''\<rparr>)
          [example_dependency ''nope'', example_dependency ''pkgB'']) \<subseteq> set (dependencies ?R)"
    by blast+
  from init have in_list: "?nope \<in> set (dependencies ?R)" "?b \<in> set (dependencies ?R)"
    by (simp_all add: example_dependency_def)
  with all have "processed ?ctx ?src (sourcePackageList ?st) (progress ?R) ?nope"
    "processed ?ctx ?src (sourcePackageList ?st) (progress ?R) ?b" by blast+
  then have 1: "CantBeSatisfied ?nope ?src \<in> set (progress ?R)" and 2: "Added pkgB \<in> set (progress ?R)"
    using s1 s2 by (blast intro: processed_unsatisfied processed_found)+
  from inst obtain es where
    "\<forall>d\<in>set (dependencies ?R).
       \<forall>m\<in>set (Search (CompareVersions ?ctx) (sourcePackageList ?st) d (flag_all_matches ?ctx)).
         m \<in> set (added es) \<and> kept ?ctx es (packageList ?R) m"
    by blast
  moreover have "pkgB \<in> set (Search (CompareVersions ?ctx) (sourcePackageList ?st) ?b (flag_all_matches ?ctx))"
    by (simp only: s2) simp
  ultimately have k: "kept ?ctx es (packageList ?R) pkgB" using in_list(2) by blast
  have "\<forall>q\<in>set (packageList ?R). same_name_arch q pkgB \<longrightarrow> q = pkgB" by code_simp
  with k have 3: "pkgB \<in> set (packageList ?R)" unfolding kept_def by blast
  from 1 2 3 show ?thesis by blast
qed

text \<open>Claim C5. The architectures of the pull are the configured list when it is not empty,
  else the architectures of the destination package list, which never include the source
  pseudo-architecture; in both cases sorted. When both are empty the command fails with
  \<open>NoArchitectures\<close> right after loading: the collection is unchanged and the progress
  output has no event of the loop (no search, removal or addition took place). Otherwise
  the loop runs over the sorted list from left to right.\<close>

theorem architectures_of_pull:
  "(ArchitecturesList ctx \<noteq> [] \<longrightarrow> calculate_architectures ctx pl = sort (ArchitecturesList ctx)) \<and>
   (ArchitecturesList ctx = [] \<longrightarrow>
      calculate_architectures ctx pl = sort (Architectures pl False) \<and>
      ''source'' \<notin> set (calculate_architectures ctx pl)) \<and>
   sorted (calculate_architectures ctx pl) \<and>
   (4 \<le> length args \<longrightarrow> load_snapshots ctx args = (ctx1, Inr (snapshot, source, pl, spl)) \<longrightarrow>
      ArchitecturesList ctx = [] \<longrightarrow> Architectures pl False = [] \<longrightarrow>
      aptlySnapshotPull ctx args = (Some NoArchitectures, ctx1) \<and>
      SnapshotCollection ctx1 = SnapshotCollection ctx \<and>
      (\<exists>es. Progress ctx1 = Progress ctx @ es \<and> filter closure_event es = [])) \<and>
   (4 \<le> length args \<longrightarrow> load_snapshots ctx args = (ctx1, Inr (snapshot, source, pl, spl)) \<longrightarrow>
      calculate_architectures ctx pl \<noteq> [] \<longrightarrow>
      parse_arguments (ParseDependency ctx) (drop 3 args) = Inr initialDependencies \<longrightarrow>
      aptlySnapshotPull ctx args =
        create_snapshot ctx1 args snapshot source
          (fold (pull_arch ctx1 source initialDependencies) (calculate_architectures ctx pl)
             (initial_state ctx1 pl spl)))"
proof (intro conjI impI)
  assume "ArchitecturesList ctx \<noteq> []"
  then show "calculate_architectures ctx pl = sort (ArchitecturesList ctx)"
    by (simp add: calculate_architectures_def)
next
  assume "ArchitecturesList ctx = []"
  then show "calculate_architectures ctx pl = sort (Architectures pl False)"
    by (simp add: calculate_architectures_def)
next
  assume "ArchitecturesList ctx = []"
  then show "''source'' \<notin> set (calculate_architectures ctx pl)"
    using source_not_in_Architectures [of pl] by (simp add: calculate_architectures_def)
next
  show "sorted (calculate_architectures ctx pl)"
    by (simp add: calculate_architectures_def)
next
  assume a: "4 \<le> length args" and l: "load_snapshots ctx args = (ctx1, Inr (snapshot, source, pl, spl))"
    and e: "ArchitecturesList ctx = []" "Architectures pl False = []"
  have "calculate_architectures ctx1 pl = []"
    using e by (simp add: calculate_architectures_def load_snapshots_same(4) [OF l])
  with a l show "aptlySnapshotPull ctx args = (Some NoArchitectures, ctx1)"
    by (simp add: aptlySnapshotPull_def)
next
  assume l: "load_snapshots ctx args = (ctx1, Inr (snapshot, source, pl, spl))"
  then show "SnapshotCollection ctx1 = SnapshotCollection ctx"
    by (rule load_snapshots_same(2))
next
  assume l: "load_snapshots ctx args = (ctx1, Inr (snapshot, source, pl, spl))"
  then show "\<exists>es. Progress ctx1 = Progress ctx @ es \<and> filter closure_event es = []"
    by (rule load_snapshots_same(5))
next
  assume a: "4 \<le> length args" and l: "load_snapshots ctx args = (ctx1, Inr (snapshot, source, pl, spl))"
    and c: "calculate_architectures ctx pl \<noteq> []"
    and p: "parse_arguments (ParseDependency ctx) (drop 3 args) = Inr initialDependencies"
  have eq: "calculate_architectures ctx1 pl = calculate_architectures ctx pl"
    by (simp add: calculate_architectures_def load_snapshots_same(4) [OF l])
  with c have "calculate_architectures ctx1 pl \<noteq> []" by simp
  from aptlySnapshotPull_closure [OF a l this p]
  show "aptlySnapshotPull ctx args =
        create_snapshot ctx1 args snapshot source
          (fold (pull_arch ctx1 source initialDependencies) (calculate_architectures ctx pl)
             (initial_state ctx1 pl spl))"
    by (simp only: eq perform_pull_def)
qed

text \<open>Claim C5 at the example: no configured architecture and an empty destination give
  \<open>NoArchitectures\<close>; the configured list \<open>i386, amd64\<close> is processed as \<open>amd64, i386\<close>.\<close>

theorem architectures_of_pull_witness:
  "fst (aptlySnapshotPull ((example_context example_collection)\<lparr>ArchitecturesList := []\<rparr>)
         [''dst'', ''src'', ''new'', ''pkgB'']) = Some NoArchitectures \<and>
   calculate_architectures ((example_context example_collection)\<lparr>ArchitecturesList := [''i386'', ''amd64'']\<rparr>) []
     = [''amd64'', ''i386'']"
proof -
  let ?ctx = "(example_context example_collection)\<lparr>ArchitecturesList := []\<rparr>"
  let ?ctx' = "(example_context example_collection)\<lparr>ArchitecturesList := [''i386'', ''amd64'']\<rparr>"
  let ?args = "[''dst'', ''src'', ''new'', ''pkgB'']"
  let ?ctx1 = "?ctx\<lparr>Progress := Progress ?ctx @
         [PullBanner (example_snapshot ''dst'' []) (example_snapshot ''src'' [pkgB, pkgC]) (?args ! 2),
          LoadingPackages 2, BuildingIndexes]\<rparr>"
  have a: "4 \<le> length ?args" by simp
  have l: "load_snapshots ?ctx ?args =
     (?ctx1, Inr (example_snapshot ''dst'' [], example_snapshot ''src'' [pkgB, pkgC], [], [pkgB, pkgC]))"
    by (rule example_load) (simp_all add: example_context_def)
  have e: "ArchitecturesList ?ctx = []" "Architectures [] False = []"
    by (simp_all add: Architectures_def)
  have "aptlySnapshotPull ?ctx ?args = (Some NoArchitectures, ?ctx1)"
    using architectures_of_pull [of ?ctx "[]" ?args ?ctx1 "example_snapshot ''dst'' []"
        "example_snapshot ''src'' [pkgB, pkgC]" "[pkgB, pkgC]"] a l e
    by blast
  then have 1: "fst (aptlySnapshotPull ?ctx ?args) = Some NoArchitectures" by (simp only: fst_conv)
  have n: "ArchitecturesList ?ctx' \<noteq> []" by simp
  have "sort [''i386'', ''amd64''] = [''amd64'', ''i386'']" by code_simp
  moreover have "calculate_architectures ?ctx' [] = sort (ArchitecturesList ?ctx')"
    using architectures_of_pull [of ?ctx' "[]"] n by blast
  ultimately have 2: "calculate_architectures ?ctx' [] = [''amd64'', ''i386'']" by simp
  from 1 2 show ?thesis by blast
qed

text \<open>Claim C6. When any of the dependency arguments (the fourth and later) fails to parse,
  wherever it stands, the command returns an error, the snapshot collection is unchanged,
  and the progress output gained no event of the loop over the architectures: nothing
  was searched, removed or added. When everything before the parsing succeeds, the error
  is that of line 85.\<close>

theorem malformed_argument_aborts:
  assumes "\<exists>a\<in>set (drop 3 args). isl (ParseDependency ctx a)"
  shows "fst (aptlySnapshotPull ctx args) \<noteq> None \<and>
         SnapshotCollection (snd (aptlySnapshotPull ctx args)) = SnapshotCollection ctx \<and>
         (\<exists>es. Progress (snd (aptlySnapshotPull ctx args)) = Progress ctx @ es \<and>
               filter closure_event es = []) \<and>
         (load_snapshots ctx args = (ctx1, Inr (snapshot, source, pl, spl)) \<longrightarrow>
          calculate_architectures ctx1 pl \<noteq> [] \<longrightarrow>
            (\<exists>e. aptlySnapshotPull ctx args = (Some (UnableToParseArgument e), ctx1)))"
proof -
  from assms have "drop 3 args \<noteq> []" by auto
  then have len: "\<not> length args < 4" by auto
  obtain c r where l: "load_snapshots ctx args = (c, r)" by (cases "load_snapshots ctx args")
  note same = load_snapshots_same [OF l]
  obtain e where pe: "parse_arguments (ParseDependency c) (drop 3 args) = Inl (UnableToParseArgument e)"
    using parse_arguments_fails [OF assms] unfolding same(3) by blast
  have "\<exists>x. aptlySnapshotPull ctx args = (Some x, c)"
  proof (cases r)
    case (Inl x)
    then show ?thesis using len l by (simp add: aptlySnapshotPull_def)
  next
    case (Inr t)
    obtain s1 s2 p1 p2 where t: "t = (s1, s2, p1, p2)" by (cases t)
    show ?thesis
      using len l Inr t pe by (simp add: aptlySnapshotPull_def Let_def)
  qed
  then obtain x where x: "aptlySnapshotPull ctx args = (Some x, c)" by blast
  have 1: "fst (aptlySnapshotPull ctx args) \<noteq> None" by (simp add: x)
  have 2: "SnapshotCollection (snd (aptlySnapshotPull ctx args)) = SnapshotCollection ctx"
    by (simp add: x same(2))
  have 3: "\<exists>es. Progress (snd (aptlySnapshotPull ctx args)) = Progress ctx @ es \<and>
               filter closure_event es = []"
    using same(5) by (simp add: x)
  have 4: "load_snapshots ctx args = (ctx1, Inr (snapshot, source, pl, spl)) \<longrightarrow>
          calculate_architectures ctx1 pl \<noteq> [] \<longrightarrow>
            (\<exists>e. aptlySnapshotPull ctx args = (Some (UnableToParseArgument e), ctx1))"
    using len l pe by (auto simp: aptlySnapshotPull_def Let_def)
  from 1 2 3 4 show ?thesis by blast
qed

text \<open>Claim C6 at the example: the last argument has a version constraint, which the example
  parser rejects.\<close>

theorem malformed_argument_aborts_witness:
  "fst (aptlySnapshotPull (example_context example_collection)
         [''dst'', ''src'', ''new'', ''pkgB'', ''pkgA (>= 1.0)'']) \<noteq> None \<and>
   SnapshotCollection (snd (aptlySnapshotPull (example_context example_collection)
         [''dst'', ''src'', ''new'', ''pkgB'', ''pkgA (>= 1.0)''])) = example_collection"
proof -
  let ?ctx = "example_context example_collection"
  let ?args = "[''dst'', ''src'', ''new'', ''pkgB'', ''pkgA (>= 1.0)'']"
  have "isl (ParseDependency ?ctx ''pkgA (>= 1.0)'')"
    by (simp add: example_context_def example_parse_def)
  then have "\<exists>a\<in>set (drop 3 ?args). isl (ParseDependency ?ctx a)" by simp
  from malformed_argument_aborts [OF this]
  have "fst (aptlySnapshotPull ?ctx ?args) \<noteq> None"
    "SnapshotCollection (snd (aptlySnapshotPull ?ctx ?args)) = SnapshotCollection ?ctx"
    by blast+
  moreover have "SnapshotCollection ?ctx = example_collection" by (simp add: example_context_def)
  ultimately show ?thesis by simp
qed

text \<open>Claim C7 as stated fails. \<^verbatim>\<open>dry-run\<close> is unset and the closure completes, but the name
  given for the new snapshot is taken (here by the destination itself): the collection
  refuses the snapshot, the command returns the error of line 169, and the collection
  is as before.\<close>

theorem duplicate_name_not_persisted:
  "fst (aptlySnapshotPull (example_context example_collection) [''dst'', ''src'', ''dst'', ''pkgB''])
     = Some (UnableToCreateSnapshot (DuplicateName ''dst'')) \<and>
   SnapshotCollection
     (snd (aptlySnapshotPull (example_context example_collection) [''dst'', ''src'', ''dst'', ''pkgB'']))
     = example_collection \<and>
   \<not> flag_dry_run (example_context example_collection)"
  by code_simp

text \<open>Claim C7, amended. In a run that reaches the loop over the architectures: with
  \<^verbatim>\<open>dry-run\<close> set no snapshot is created, the collection stays as it was and the progress
  output ends with the message of line 161. With \<^verbatim>\<open>dry-run\<close> unset, a snapshot named by
  the third argument, holding the destination package list after the closure and recording
  the destination and the source snapshot, in this order, as parents, is added to the
  collection when no snapshot has that name; when one has, the command fails with the
  error of line 169 and the collection stays as it was.\<close>

theorem snapshot_creation:
  assumes "4 \<le> length args"
    and "load_snapshots ctx args = (ctx1, Inr (snapshot, source, pl, spl))"
    and "calculate_architectures ctx1 pl \<noteq> []"
    and "parse_arguments (ParseDependency ctx) (drop 3 args) = Inr initialDependencies"
  shows "aptlySnapshotPull ctx args =
     (if flag_dry_run ctx
      then (err (pulled ctx1 source initialDependencies pl spl),
            ctx1\<lparr>Progress := progress (pulled ctx1 source initialDependencies pl spl)
                               @ [NotCreatingSnapshot]\<rparr>)
      else if list_ex (\<lambda>t. Name t = args ! 2) (SnapshotCollection ctx)
      then (Some (UnableToCreateSnapshot (DuplicateName (args ! 2))),
            ctx1\<lparr>Progress := progress (pulled ctx1 source initialDependencies pl spl)\<rparr>)
      else (None,
            ctx1\<lparr>SnapshotCollection := SnapshotCollection ctx @
                     [\<lparr>Name = args ! 2,
                       RefList = packageList (pulled ctx1 source initialDependencies pl spl),
                       SourceSnapshots = [Name snapshot, Name source],
                       Description = pull_description snapshot source args\<rparr>],
                  Progress := progress (pulled ctx1 source initialDependencies pl spl)
                               @ [SnapshotCreated (args ! 2)]\<rparr>)) \<and>
     SnapshotCollection ctx1 = SnapshotCollection ctx"
  unfolding aptlySnapshotPull_pulled [OF assms] create_snapshot_def Let_def
    load_snapshots_same(1,2) [OF assms(2)]
  by (simp add: CollectionAdd_def NewSnapshotFromPackageList_def)

text \<open>Claim C7, amended, at the example: the new snapshot \<open>new\<close> joins the collection with the
  parents \<open>dst\<close> and \<open>src\<close>.\<close>

theorem snapshot_creation_witness:
  "fst (aptlySnapshotPull (example_context example_collection) [''dst'', ''src'', ''new'', ''pkgB''])
     = None \<and>
   map Name (SnapshotCollection
     (snd (aptlySnapshotPull (example_context example_collection) [''dst'', ''src'', ''new'', ''pkgB''])))
     = [''dst'', ''src'', ''new''] \<and>
   map SourceSnapshots (SnapshotCollection
     (snd (aptlySnapshotPull (example_context example_collection) [''dst'', ''src'', ''new'', ''pkgB''])))
     = [[], [], [''dst'', ''src'']]"
proof -
  let ?ctx = "example_context example_collection"
  let ?args = "[''dst'', ''src'', ''new'', ''pkgB'']"
  let ?ctx1 = "?ctx\<lparr>Progress := Progress ?ctx @
         [PullBanner (example_snapshot ''dst'' []) (example_snapshot ''src'' [pkgB, pkgC]) (?args ! 2),
          LoadingPackages 2, BuildingIndexes]\<rparr>"
  have a: "4 \<le> length ?args" by simp
  have l: "load_snapshots ?ctx ?args =
     (?ctx1, Inr (example_snapshot ''dst'' [], example_snapshot ''src'' [pkgB, pkgC], [], [pkgB, pkgC]))"
    by (rule example_load) (simp_all add: example_context_def)
  have c: "calculate_architectures ?ctx1 [] \<noteq> []"
    by (simp add: calculate_architectures_def example_context_def)
  have p: "parse_arguments (ParseDependency ?ctx) (drop 3 ?args) = Inr [example_dependency ''pkgB'']"
    by (simp add: example_context_def example_parse_def example_dependency_def)
  have d: "\<not> flag_dry_run ?ctx" by (simp add: example_context_def)
  have n: "\<not> list_ex (\<lambda>t. Name t = ?args ! 2) (SnapshotCollection ?ctx)"
    by (simp add: example_context_def example_collection_def example_snapshot_def)
  have s: "SnapshotCollection ?ctx = example_collection" by (simp add: example_context_def)
  let ?R = "pulled ?ctx1 (example_snapshot ''src'' [pkgB, pkgC]) [example_dependency ''pkgB''] [] [pkgB, pkgC]"
  let ?new = "\<lparr>Name = ?args ! 2, RefList = packageList ?R,
      SourceSnapshots = [Name (example_snapshot ''dst'' []), Name (example_snapshot ''src'' [pkgB, pkgC])],
      Description = pull_description (example_snapshot ''dst'' []) (example_snapshot ''src'' [pkgB, pkgC]) ?args\<rparr>"
  have eq: "aptlySnapshotPull ?ctx ?args =
     (None, ?ctx1\<lparr>SnapshotCollection := SnapshotCollection ?ctx @ [?new],
                    Progress := progress ?R @ [SnapshotCreated (?args ! 2)]\<rparr>)"
    using snapshot_creation [OF a l c p] d n by (simp only: if_False)
  have 1: "fst (aptlySnapshotPull ?ctx ?args) = None" by (simp only: eq fst_conv)
  have "SnapshotCollection (snd (aptlySnapshotPull ?ctx ?args)) = SnapshotCollection ?ctx @ [?new]"
    unfolding eq by simp
  then have "SnapshotCollection (snd (aptlySnapshotPull ?ctx ?args)) = example_collection @ [?new]"
    by (simp only: s)
  then have 2: "map Name (SnapshotCollection (snd (aptlySnapshotPull ?ctx ?args))) = [''dst'', ''src'', ''new'']"
    and 3: "map SourceSnapshots (SnapshotCollection (snd (aptlySnapshotPull ?ctx ?args)))
        = [[], [], [''dst'', ''src'']]"
    by (simp_all add: example_collection_def example_snapshot_def)
  from 1 2 3 show ?thesis by blast
qed

text \<open>Claim C8. The loop over the architectures (lines 90 to 158) only searches the source
  package list: whatever the flags, the architectures and the initial dependencies, the
  source package list after the pull is the one before.\<close>

theorem source_is_read_only:
  "sourcePackageList (perform_pull ctx source initialDependencies architecturesList st)
     = sourcePackageList st"
  by (rule perform_pull_source)

text \<open>Claim C8 at the example: pulling \<open>pkgA\<close> leaves the source \<open>[pkgA2, pkgB]\<close>.\<close>

theorem source_is_read_only_witness:
  "sourcePackageList
     (perform_pull (example_context []) (example_snapshot ''src'' [pkgA2, pkgB])
        [example_dependency ''pkgA''] [''amd64'']
        (initial_state (example_context []) [pkgA1] [pkgA2, pkgB]))
   = [pkgA2, pkgB]"
  using source_is_read_only [of "example_context []" "example_snapshot ''src'' [pkgA2, pkgB]"
      "[example_dependency ''pkgA'']" "[''amd64'']"
      "initial_state (example_context []) [pkgA1] [pkgA2, pkgB]"]
  by (simp add: initial_state_def)



text \<open>Claim C10. In a run that reaches the loop over the architectures, the command returns,
  when \<^verbatim>\<open>dry-run\<close> is set, the error of the last call of \<^verbatim>\<open>VerifyDependencies\<close> that the
  loop made, over all architectures, work-list entries and found packages (nil when that
  call succeeded or no call was made); when \<^verbatim>\<open>dry-run\<close> is unset it returns only the
  outcome of adding the new snapshot to the collection. The shared \<^verbatim>\<open>err\<close> after the
  loop over the architectures, from any state, is the error of the last call, or what
  it was when no call was made; after the body for one work-list entry with matches (and
  without \<^verbatim>\<open>no-deps\<close>) it is the error of the verification of all matches against the
  destination.\<close>

theorem returned_error_of_last_verification:
  assumes "4 \<le> length args"
    and "load_snapshots ctx args = (ctx1, Inr (snapshot, source, pl, spl))"
    and "calculate_architectures ctx1 pl \<noteq> []"
    and "parse_arguments (ParseDependency ctx) (drop 3 args) = Inr initialDependencies"
  shows "fst (aptlySnapshotPull ctx args) =
     (if flag_dry_run ctx
      then last (None # verify_errors ctx1 source initialDependencies
                          (calculate_architectures ctx1 pl) (initial_state ctx1 pl spl))
      else case CollectionAdd (SnapshotCollection ctx)
             (NewSnapshotFromPackageList (args ! 2) [snapshot, source]
                (packageList (pulled ctx1 source initialDependencies pl spl))
                (pull_description snapshot source args)) of
             Inl e \<Rightarrow> Some (UnableToCreateSnapshot e)
           | Inr coll \<Rightarrow> None) \<and>
     err (pulled ctx1 source initialDependencies pl spl) =
       last (None # verify_errors ctx1 source initialDependencies
                      (calculate_architectures ctx1 pl) (initial_state ctx1 pl spl)) \<and>
     err (perform_pull ctx1 source initialDependencies architecturesList st) =
       last (err st # verify_errors ctx1 source initialDependencies architecturesList st) \<and>
     err (closure_body ctx1 source arch i st) =
       (let rs = Search (CompareVersions ctx1) (sourcePackageList st) (dependencies st ! i)
                   (flag_all_matches ctx1)
        in if rs = [] \<or> flag_no_deps ctx1 then err st
           else snd (VerifyDependencies (CompareVersions ctx1) (fold (\<lambda>p l. Add l p) rs []) [arch]
                  (packageList (closure_body ctx1 source arch i st))))"
proof (intro conjI)
  have e: "err (pulled ctx1 source initialDependencies pl spl) =
       last (None # verify_errors ctx1 source initialDependencies
                      (calculate_architectures ctx1 pl) (initial_state ctx1 pl spl))"
    unfolding pulled_def perform_pull_err_last by (simp add: initial_state_def)
  then show "err (pulled ctx1 source initialDependencies pl spl) =
       last (None # verify_errors ctx1 source initialDependencies
                      (calculate_architectures ctx1 pl) (initial_state ctx1 pl spl))" .
  have "fst (aptlySnapshotPull ctx args) =
     (if flag_dry_run ctx then err (pulled ctx1 source initialDependencies pl spl)
      else case CollectionAdd (SnapshotCollection ctx)
             (NewSnapshotFromPackageList (args ! 2) [snapshot, source]
                (packageList (pulled ctx1 source initialDependencies pl spl))
                (pull_description snapshot source args)) of
             Inl e \<Rightarrow> Some (UnableToCreateSnapshot e)
           | Inr coll \<Rightarrow> None)"
    unfolding aptlySnapshotPull_pulled [OF assms] create_snapshot_def Let_def
      load_snapshots_same(1,2) [OF assms(2)]
    by (simp split: sum.splits)
  then show "fst (aptlySnapshotPull ctx args) =
     (if flag_dry_run ctx
      then last (None # verify_errors ctx1 source initialDependencies
                          (calculate_architectures ctx1 pl) (initial_state ctx1 pl spl))
      else case CollectionAdd (SnapshotCollection ctx)
             (NewSnapshotFromPackageList (args ! 2) [snapshot, source]
                (packageList (pulled ctx1 source initialDependencies pl spl))
                (pull_description snapshot source args)) of
             Inl e \<Rightarrow> Some (UnableToCreateSnapshot e)
           | Inr coll \<Rightarrow> None)"
    by (simp only: e)
  show "err (perform_pull ctx1 source initialDependencies architecturesList st) =
       last (err st # verify_errors ctx1 source initialDependencies architecturesList st)"
    by (rule perform_pull_err_last)
  show "err (closure_body ctx1 source arch i st) =
       (let rs = Search (CompareVersions ctx1) (sourcePackageList st) (dependencies st ! i)
                   (flag_all_matches ctx1)
        in if rs = [] \<or> flag_no_deps ctx1 then err st
           else snd (VerifyDependencies (CompareVersions ctx1) (fold (\<lambda>p l. Add l p) rs []) [arch]
                  (packageList (closure_body ctx1 source arch i st))))"
    by (rule closure_body_err)
qed

text \<open>Claim C10 at the example: with \<^verbatim>\<open>dry-run\<close> and the architectures \<open>i386\<close> and \<open>amd64\<close>, pulling
  \<open>pkgB\<close> and \<open>pkgC\<close> completes. The last verification is that of \<open>pkgC\<close> for \<open>amd64\<close>,
  which fails; for \<open>i386\<close>, processed after it, nothing is found and nothing verified. The
  command returns that error.\<close>

theorem returned_error_of_last_verification_witness:
  "fst (aptlySnapshotPull
         ((example_context example_collection)
            \<lparr>flag_dry_run := True, ArchitecturesList := [''i386'', ''amd64'']\<rparr>)
         [''dst'', ''src'', ''new'', ''pkgB'', ''pkgC''])
   = Some (InvalidRelation [pkgC])"
proof -
  let ?ctx = "(example_context example_collection)
      \<lparr>flag_dry_run := True, ArchitecturesList := [''i386'', ''amd64'']\<rparr>"
  let ?args = "[''dst'', ''src'', ''new'', ''pkgB'', ''pkgC'']"
  let ?ctx1 = "?ctx\<lparr>Progress := Progress ?ctx @
         [PullBanner (example_snapshot ''dst'' []) (example_snapshot ''src'' [pkgB, pkgC]) (?args ! 2),
          LoadingPackages 2, BuildingIndexes]\<rparr>"
  have a: "4 \<le> length ?args" by simp
  have l: "load_snapshots ?ctx ?args =
     (?ctx1, Inr (example_snapshot ''dst'' [], example_snapshot ''src'' [pkgB, pkgC], [], [pkgB, pkgC]))"
    by (rule example_load) (simp_all add: example_context_def)
  have s: "calculate_architectures ?ctx1 [] = [''amd64'', ''i386'']"
    by code_simp
  then have c: "calculate_architectures ?ctx1 [] \<noteq> []" by simp
  have p: "parse_arguments (ParseDependency ?ctx) (drop 3 ?args)
      = Inr [example_dependency ''pkgB'', example_dependency ''pkgC'']"
    by (simp add: example_context_def example_parse_def example_dependency_def)
  have d: "flag_dry_run ?ctx" by simp
  have v: "verify_errors ?ctx1 (example_snapshot ''src'' [pkgB, pkgC])
            [example_dependency ''pkgB'', example_dependency ''pkgC''] [''amd64'', ''i386'']
            (initial_state ?ctx1 [] [pkgB, pkgC])
      = [None, Some (InvalidRelation [pkgC])]"
    by code_simp
  have "fst (aptlySnapshotPull ?ctx ?args) =
     last (None # verify_errors ?ctx1 (example_snapshot ''src'' [pkgB, pkgC])
            [example_dependency ''pkgB'', example_dependency ''pkgC'']
            (calculate_architectures ?ctx1 []) (initial_state ?ctx1 [] [pkgB, pkgC]))"
    using returned_error_of_last_verification [OF a l c p] d by (simp only: if_True)
  then show ?thesis by (simp only: s v) simp
qed

end
